theory Spec2Isabelle
  imports Complex_Main "HOL-Library.Log_Nat"
begin

section \<open>Numbers: IEEE binary64 values as rationals\<close>

text \<open>
  Every TypeScript \<^verbatim>\<open>number\<close> of the generator is a finite IEEE binary64 value. A
  finite double is a rational number, so the model computes on \<^typ>\<open>rat\<close> and applies the
  rounding function \<open>rd\<close> (round to nearest, ties to even, 53 significant bits,
  subnormals below \<open>2 powi -1022\<close>) after each arithmetic operation, as the hardware
  does. Infinities and NaN are outside the model: every value of the generator stays far
  below \<open>2 powi 1024\<close>, and the only division by a computed value (by a day's
  \<^verbatim>\<open>baselineKwh\<close>, at least 23 when the host's sine stays within \<open>[-1, 1]\<close>) has a
  nonzero divisor then. Years and month indices are integers (safe integers of the
  host).
\<close>

type_synonym num = rat

definition flog2 :: "rat \<Rightarrow> int" where
  "flog2 x = (let p = fst (quotient_of x); q = snd (quotient_of x);
                  e = bitlen p - bitlen q
              in if 2 powi e \<le> x then e else e - 1)"

definition rne :: "rat \<Rightarrow> int" where
  "rne x = (let f = \<lfloor>x\<rfloor>; r = x - of_int f
            in if r < 1 / 2 then f
               else if 1 / 2 < r then f + 1
               else if even f then f else f + 1)"

definition ulp :: "rat \<Rightarrow> rat" where
  "ulp a = 2 powi (max (flog2 a) (- 1022) - 52)"

definition rd :: "rat \<Rightarrow> num" where
  "rd x = (if x = 0 then 0
           else sgn x * (of_int (rne (\<bar>x\<bar> / ulp \<bar>x\<bar>)) * ulp \<bar>x\<bar>))"

text \<open>A decimal literal of the source denotes the double nearest to it.\<close>

definition lit :: "rat \<Rightarrow> num" where
  "lit x = rd x"

definition fadd :: "num \<Rightarrow> num \<Rightarrow> num" where
  "fadd x y = rd (x + y)"

definition fsub :: "num \<Rightarrow> num \<Rightarrow> num" where
  "fsub x y = rd (x - y)"

definition fmul :: "num \<Rightarrow> num \<Rightarrow> num" where
  "fmul x y = rd (x * y)"

definition fdiv :: "num \<Rightarrow> num \<Rightarrow> num" where
  "fdiv x y = rd (x / y)"

definition Math_PI :: num where
  "Math_PI = 884279719003555 / 281474976710656"

text \<open>
  \<^verbatim>\<open>x.toFixed(k)\<close> prints the decimal with \<open>k\<close> fraction digits nearest to the exact
  value of \<open>x\<close>, the larger one of two equally near, the sign apart; \<open>toFixed\<close> is the
  value of that decimal. \<^verbatim>\<open>parseFloat\<close> reads a decimal as the nearest double.
\<close>

definition toFixed :: "nat \<Rightarrow> num \<Rightarrow> rat" where
  "toFixed k x = sgn x * (of_int \<lfloor>\<bar>x\<bar> * 10 ^ k + 1 / 2\<rfloor> / 10 ^ k)"

definition parseFloat :: "rat \<Rightarrow> num" where
  "parseFloat s = rd s"

text \<open>
  \<^verbatim>\<open>Math.sin\<close> and \<^verbatim>\<open>Math.cos\<close> are implementation-approximated in ECMAScript:
  the result depends on the host. The model takes them as the parameters \<open>msin\<close> and
  \<open>mcos\<close> of every function that reaches them. \<open>sin_ref\<close> and \<open>cos_ref\<close> are one
  such pair: the Taylor polynomials of degree 27 and 26, evaluated in binary64 by
  Horner's rule and kept within \<open>[-1, 1]\<close>, as a host's library could compute them.
\<close>

fun horner :: "num \<Rightarrow> num list \<Rightarrow> num" where
  "horner z [] = 0"
| "horner z (c # cs) = fadd c (fmul z (horner z cs))"

definition sin_coeffs :: "num list" where
  "sin_coeffs =
    [lit (1 / 1), lit (- 1 / 6), lit (1 / 120), lit (- 1 / 5040), lit (1 / 362880),
     lit (- 1 / 39916800), lit (1 / 6227020800), lit (- 1 / 1307674368000),
     lit (1 / 355687428096000), lit (- 1 / 121645100408832000),
     lit (1 / 51090942171709440000), lit (- 1 / 25852016738884976640000),
     lit (1 / 15511210043330985984000000), lit (- 1 / 10888869450418352160768000000)]"

definition cos_coeffs :: "num list" where
  "cos_coeffs =
    [lit (1 / 1), lit (- 1 / 2), lit (1 / 24), lit (- 1 / 720), lit (1 / 40320),
     lit (- 1 / 3628800), lit (1 / 479001600), lit (- 1 / 87178291200),
     lit (1 / 20922789888000), lit (- 1 / 6402373705728000), lit (1 / 2432902008176640000),
     lit (- 1 / 1124000727777607680000), lit (1 / 620448401733239439360000),
     lit (- 1 / 403291461126605635584000000)]"

definition clamp1 :: "num \<Rightarrow> num" where
  "clamp1 x = max (- 1) (min 1 x)"

definition sin_ref :: "num \<Rightarrow> num" where
  "sin_ref x = clamp1 (fmul x (horner (fmul x x) sin_coeffs))"

definition cos_ref :: "num \<Rightarrow> num" where
  "cos_ref x = clamp1 (horner (fmul x x) cos_coeffs)"

section \<open>Strings of numbers\<close>

text \<open>
  A template literal prints an integer in decimal, with a leading minus sign when it is
  negative.
\<close>

definition digit_char :: "nat \<Rightarrow> char" where
  "digit_char n = ''0123456789'' ! n"

fun digits :: "nat \<Rightarrow> string" where
  "digits n = (if n < 10 then [digit_char n] else digits (n div 10) @ [digit_char (n mod 10)])"

definition show_int :: "int \<Rightarrow> string" where
  "show_int i = (if i < 0 then CHR ''-'' # digits (nat (- i)) else digits (nat i))"

text \<open>\<^verbatim>\<open>s.padStart(2, "0")\<close>\<close>

definition padStart2 :: "string \<Rightarrow> string" where
  "padStart2 s = replicate (2 - length s) CHR ''0'' @ s"

definition buildMonthKey :: "int \<Rightarrow> int \<Rightarrow> string" where
  "buildMonthKey year month = show_int year @ ''-'' @ padStart2 (show_int (month + 1))"

section \<open>Dates\<close>

text \<open>
  A valid \<^verbatim>\<open>Date\<close> is kept by its local calendar fields, named after their getters,
  and the milliseconds since local midnight. \<^verbatim>\<open>MakeDay\<close> of ECMAScript takes any
  integer as month and day and carries the excess over; \<open>norm_day\<close> does the carrying
  month by month. The time value counts days from 1970-01-01 with the formulas of
  ECMAScript (\<open>DayFromYear\<close>); a date whose time value exceeds \<open>8.64e15\<close> milliseconds
  in magnitude is the invalid date, \<open>None\<close> here. The offset of the local time zone from
  UTC is taken as zero.
\<close>

record jsdate =
  getFullYear :: int
  getMonth :: int
  getDate :: int
  timeInDay :: int

definition is_leap :: "int \<Rightarrow> bool" where
  "is_leap y = (if y mod 400 = 0 then True else if y mod 100 = 0 then False else y mod 4 = 0)"

definition days_in_month :: "int \<Rightarrow> int \<Rightarrow> int" where
  "days_in_month y m =
     (if m = 1 then (if is_leap y then 29 else 28)
      else if m = 3 then 30 else if m = 5 then 30 else if m = 8 then 30
      else if m = 10 then 30 else 31)"

definition prev_month :: "int \<Rightarrow> int \<Rightarrow> int \<times> int" where
  "prev_month y m = (if m = 0 then (y - 1, 11) else (y, m - 1))"

definition next_month :: "int \<Rightarrow> int \<Rightarrow> int \<times> int" where
  "next_month y m = (if m = 11 then (y + 1, 0) else (y, m + 1))"

lemma days_in_month_bounds: "28 \<le> days_in_month y m \<and> days_in_month y m \<le> 31"
  by (simp add: days_in_month_def)

function norm_day :: "int \<Rightarrow> int \<Rightarrow> int \<Rightarrow> int \<times> int \<times> int" where
  "norm_day y m d =
     (if d < 1 then
        norm_day (fst (prev_month y m)) (snd (prev_month y m))
          (d + days_in_month (fst (prev_month y m)) (snd (prev_month y m)))
      else if days_in_month y m < d then
        norm_day (fst (next_month y m)) (snd (next_month y m)) (d - days_in_month y m)
      else (y, m, d))"
  by pat_completeness auto
termination
proof (relation "measure (\<lambda>(y, m, d). if d < 1 then nat (32 - d) else nat d)")
  show "wf (measure (\<lambda>(y, m, d). if d < 1 then nat (32 - d) else nat d))"
    by simp
next
  fix y m d :: int
  assume "d < 1"
  then show "((fst (prev_month y m), snd (prev_month y m),
        d + days_in_month (fst (prev_month y m)) (snd (prev_month y m))), y, m, d)
      \<in> measure (\<lambda>(y, m, d). if d < 1 then nat (32 - d) else nat d)"
    using days_in_month_bounds [of "fst (prev_month y m)" "snd (prev_month y m)"]
    by auto
next
  fix y m d :: int
  assume "\<not> d < 1" "days_in_month y m < d"
  then show "((fst (next_month y m), snd (next_month y m), d - days_in_month y m), y, m, d)
      \<in> measure (\<lambda>(y, m, d). if d < 1 then nat (32 - d) else nat d)"
    using days_in_month_bounds [of y m] by auto
qed

definition day_from_year :: "int \<Rightarrow> int" where
  "day_from_year y =
     365 * (y - 1970) + (y - 1969) div 4 - (y - 1901) div 100 + (y - 1601) div 400"

definition day_number :: "int \<Rightarrow> int \<Rightarrow> int \<Rightarrow> int" where
  "day_number y m d =
     day_from_year y + sum_list (map (\<lambda>k. days_in_month y (int k)) [0..<nat m]) + d - 1"

definition getTime :: "jsdate \<Rightarrow> int" where
  "getTime t = day_number (getFullYear t) (getMonth t) (getDate t) * 86400000 + timeInDay t"

definition time_clip :: "jsdate \<Rightarrow> jsdate option" where
  "time_clip t = (if \<bar>getTime t\<bar> \<le> 8640000000000000 then Some t else None)"

text \<open>
  \<^verbatim>\<open>new Date(year, month, day)\<close>: a year from 0 to 99 stands for 1900 + year
  (\<open>MakeFullYear\<close>).
\<close>

definition make_full_year :: "int \<Rightarrow> int" where
  "make_full_year y = (if 0 \<le> y \<and> y \<le> 99 then 1900 + y else y)"

definition make_day :: "int \<Rightarrow> int \<Rightarrow> int \<Rightarrow> int \<Rightarrow> jsdate" where
  "make_day y m d ms =
     (let n = norm_day (y + m div 12) (m mod 12) d
      in \<lparr>getFullYear = fst n, getMonth = fst (snd n), getDate = snd (snd n), timeInDay = ms\<rparr>)"

definition new_Date :: "int \<Rightarrow> int \<Rightarrow> int \<Rightarrow> jsdate option" where
  "new_Date year month day = time_clip (make_day (make_full_year year) month day 0)"

text \<open>\<^verbatim>\<open>setMonth\<close> and \<^verbatim>\<open>setDate\<close> keep the other fields and the time of day.\<close>

definition setMonth :: "jsdate \<Rightarrow> int \<Rightarrow> jsdate option" where
  "setMonth t m = time_clip (make_day (getFullYear t) m (getDate t) (timeInDay t))"

definition setDate :: "jsdate \<Rightarrow> int \<Rightarrow> jsdate option" where
  "setDate t d = time_clip (make_day (getFullYear t) (getMonth t) d (timeInDay t))"

text \<open>
  \<^verbatim>\<open>getAdjacentMonth(date, offset)\<close>. A setter on the invalid date leaves it invalid.
\<close>

definition getAdjacentMonth :: "jsdate \<Rightarrow> int \<Rightarrow> jsdate option" where
  "getAdjacentMonth date offset =
     (case setMonth date (getMonth date + offset) of
        None \<Rightarrow> None
      | Some next \<Rightarrow> setDate next 1)"

section \<open>The data model\<close>

datatype EnergyImpactType = Reduction | Shift | Generation

datatype TaskStatus = Planned | Completed

datatype Priority = Low | Medium | High

datatype error = RangeError

text \<open>
  The fields keep the names of the interfaces; a name that two interfaces share, or that
  is a constant of HOL, carries the interface's name in front (\<open>task_id\<close> for the
  \<^verbatim>\<open>id\<close> of a task, \<open>total_usageKwh\<close> for \<^verbatim>\<open>totals.usageKwh\<close>). A field that
  holds an ISO timestamp holds the date it prints; \<open>month_label\<close> holds the month index
  and the year number that the label prints.
\<close>

record EnergyTask =
  task_id :: string
  title :: string
  time :: string
  description :: string
  impact_type :: EnergyImpactType
  impact_value :: num
  status :: TaskStatus

record EnergyInsight =
  label :: string
  change :: num
  insight_description :: string

record DemandResponseEvent =
  event_id :: string
  event_date :: jsdate
  window :: string
  priority :: Priority
  incentive :: string
  recommendation :: string

record EnergyDay =
  date :: jsdate
  usageKwh :: num
  solarGenerationKwh :: num
  peakUsageKwh :: num
  offPeakUsageKwh :: num
  carbonKg :: num
  costUsd :: num
  baselineKwh :: num
  insights :: "EnergyInsight list"
  tasks :: "EnergyTask list"

record Totals =
  total_usageKwh :: num
  total_solarGenerationKwh :: num
  total_netGridKwh :: num
  total_carbonKg :: num
  total_baselineKwh :: num
  total_costUsd :: num
  total_targetKwh :: num

record MonthEnergySnapshot =
  monthStart :: jsdate
  month_label :: "int \<times> int"
  days :: "EnergyDay list"
  totals :: Totals
  demandEvents :: "DemandResponseEvent list"
  recommendations :: "string list"
  weeklyAverages :: "num list"

text \<open>\<^verbatim>\<open>Omit<EnergyTask, "id" | "status">\<close> and \<^verbatim>\<open>BuildTaskConfig\<close>\<close>

record TaskTemplate =
  tpl_title :: string
  tpl_time :: string
  tpl_description :: string
  tpl_impact_type :: EnergyImpactType
  tpl_impact_value :: num

record BuildTaskConfig =
  cfg_day :: int
  cfg_tasks :: "TaskTemplate list"

section \<open>The seeded sequence generator\<close>

text \<open>
  \<^verbatim>\<open>%\<close> of JavaScript truncates: the remainder has the sign of the dividend.
\<close>

definition js_rem :: "int \<Rightarrow> int \<Rightarrow> int" where
  "js_rem a b = sgn a * (\<bar>a\<bar> mod \<bar>b\<bar>)"

text \<open>
  \<^verbatim>\<open>createRng(seed)\<close>: the closure's only variable is \<open>state\<close>, so the generator is
  its state. All states have magnitude below \<open>2^31\<close>, hence \<open>state * 16807\<close> is below
  \<open>2^53\<close> and exact in binary64: the state is an integer of the model.
\<close>

definition createRng :: "int \<Rightarrow> int" where
  "createRng seed = (let state = js_rem seed 2147483647
                     in if state \<le> 0 then state + 2147483646 else state)"

text \<open>One call of the closure: the new state and the returned number.\<close>

definition rng_state :: "int \<Rightarrow> int" where
  "rng_state state = js_rem (state * 16807) 2147483647"

definition rng_value :: "int \<Rightarrow> num" where
  "rng_value state = fdiv (of_int (rng_state state - 1)) 2147483646"

definition rng :: "int \<Rightarrow> num \<times> int" where
  "rng state = (rng_value state, rng_state state)"

section \<open>Tasks and insights\<close>

definition presets :: "BuildTaskConfig list" where
  "presets =
    [\<lparr>cfg_day = 2, cfg_tasks =
        [\<lparr>tpl_title = ''Optimize thermostat schedule'', tpl_time = ''07:30'',
          tpl_description = ''Adjust weekday morning setpoints to reduce HVAC runtime.'',
          tpl_impact_type = Reduction, tpl_impact_value = lit (24 / 10)\<rparr>]\<rparr>,
     \<lparr>cfg_day = 5, cfg_tasks =
        [\<lparr>tpl_title = ''Schedule EV charging'', tpl_time = ''23:00'',
          tpl_description =
            ''Shift EV charging to off-peak window for demand response incentive.'',
          tpl_impact_type = Shift, tpl_impact_value = lit (61 / 10)\<rparr>]\<rparr>,
     \<lparr>cfg_day = 12, cfg_tasks =
        [\<lparr>tpl_title = ''Panel cleaning'', tpl_time = ''09:00'',
          tpl_description = ''Rinse rooftop panels to improve solar harvest.'',
          tpl_impact_type = Generation, tpl_impact_value = lit (38 / 10)\<rparr>]\<rparr>,
     \<lparr>cfg_day = 18, cfg_tasks =
        [\<lparr>tpl_title = ''Load tuning workshop'', tpl_time = ''15:30'',
          tpl_description = ''Review automation scripts for HVAC and lighting.'',
          tpl_impact_type = Reduction, tpl_impact_value = lit (19 / 10)\<rparr>,
         \<lparr>tpl_title = ''Battery discharge planning'', tpl_time = ''19:00'',
          tpl_description = ''Allocate battery discharge for peak window.'',
          tpl_impact_type = Shift, tpl_impact_value = lit (46 / 10)\<rparr>]\<rparr>,
     \<lparr>cfg_day = 24, cfg_tasks =
        [\<lparr>tpl_title = ''Demand response rehearsal'', tpl_time = ''16:00'',
          tpl_description = ''Test automated load curtailment scenario.'',
          tpl_impact_type = Reduction, tpl_impact_value = lit (28 / 10)\<rparr>]\<rparr>]"

definition preset_task :: "int \<Rightarrow> nat \<times> TaskTemplate \<Rightarrow> EnergyTask" where
  "preset_task day it =
     \<lparr>task_id = show_int day @ ''-preset-'' @ show_int (int (fst it)),
      title = tpl_title (snd it), time = tpl_time (snd it),
      description = tpl_description (snd it),
      impact_type = tpl_impact_type (snd it), impact_value = tpl_impact_value (snd it),
      status = Planned\<rparr>"

text \<open>
  \<^verbatim>\<open>deriveTasks(day, rng)\<close> returns the tasks and the state of the generator after
  its draws.
\<close>

definition deriveTasks :: "int \<Rightarrow> int \<Rightarrow> EnergyTask list \<times> int" where
  "deriveTasks day st =
     (case find (\<lambda>config. cfg_day config = day) presets of
        Some preset \<Rightarrow> (map (preset_task day) (enumerate 0 (cfg_tasks preset)), st)
      | None \<Rightarrow>
          (if lit (8 / 10) < fst (rng st) then
             ([\<lparr>task_id = show_int day @ ''-adhoc'',
                title = ''Inspect standby loads'', time = ''21:30'',
                description = ''Verify vampire loads and smart plug schedules.'',
                impact_type = Reduction,
                impact_value =
                  parseFloat (toFixed 1 (fadd (lit (12 / 10)) (fst (rng (snd (rng st)))))),
                status = Planned\<rparr>],
              snd (rng (snd (rng st))))
           else ([], snd (rng st))))"

definition generateInsights :: "EnergyDay \<Rightarrow> int \<Rightarrow> EnergyInsight list \<times> int" where
  "generateInsights day st =
     (let hvac =
        \<lparr>label = ''HVAC runtime'',
         change = parseFloat (toFixed 2
           (fdiv (fsub (usageKwh day) (baselineKwh day)) (baselineKwh day))),
         insight_description =
           (if baselineKwh day < usageKwh day
            then ''Usage rose above baseline due to higher cooling load.''
            else ''Usage stayed below baseline thanks to optimized thermostat scheduling.'')\<rparr>;
        drawn = (12 < solarGenerationKwh day);
        st1 = (if drawn then snd (rng st) else st);
        solar =
          (if drawn \<and> lit (3 / 10) < fst (rng st) then
             [\<lparr>label = ''Solar harvest'',
               change = parseFloat (toFixed 2 (fdiv (fsub (solarGenerationKwh day) 10) 10)),
               insight_description =
                 ''Higher solar yield captured during midday peak generation.''\<rparr>]
           else []);
        peak =
          (if 14 < peakUsageKwh day then
             [\<lparr>label = ''Peak window'',
               change = parseFloat (toFixed 2 (fdiv (fsub (peakUsageKwh day) 12) 12)),
               insight_description =
                 ''Peak window loads climbed. Consider shifting dishwasher or laundry.''\<rparr>]
           else [])
      in (hvac # solar @ peak, st1))"

section \<open>Demand response events\<close>

text \<open>
  \<^verbatim>\<open>new Date(year, month + 1, 0).getDate()\<close>; \<open>None\<close> is NaN, the day of the invalid
  date.
\<close>

definition daysInMonth_of :: "int \<Rightarrow> int \<Rightarrow> int option" where
  "daysInMonth_of year month = map_option getDate (new_Date year (month + 1) 0)"

text \<open>
  One turn of the loop of \<^verbatim>\<open>createDemandEvents\<close>. The second draw for the priority
  happens only when the first is at most 0.65. With NaN for \<^verbatim>\<open>daysInMonth\<close> the day
  is NaN, the date invalid, and \<^verbatim>\<open>toISOString\<close> throws, as it does for every invalid
  date.
\<close>

definition demand_event ::
  "int \<Rightarrow> int \<Rightarrow> int option \<Rightarrow> int \<Rightarrow> int \<Rightarrow> error + (DemandResponseEvent \<times> int)" where
  "demand_event year month daysInMonth index st =
     (let r_day = rng st;
          r_first = rng (snd r_day);
          r_second = rng (snd r_first);
          prio = (if lit (65 / 100) < fst r_first then High
                  else if lit (35 / 100) < fst r_second then Medium else Low);
          r_window = rng (if lit (65 / 100) < fst r_first then snd r_first else snd r_second);
          windowStartHour = 15 + \<lfloor>fmul (fst r_window) 3\<rfloor>;
          windowEndHour = windowStartHour + 2
      in case daysInMonth of
           None \<Rightarrow> Inl RangeError
         | Some dcount \<Rightarrow>
             (case new_Date year month (5 + \<lfloor>fmul (fst r_day) (of_int (dcount - 10))\<rfloor>) of
                None \<Rightarrow> Inl RangeError
              | Some d \<Rightarrow>
                  Inr (\<lparr>event_id = show_int year @ ''-'' @ show_int month @ ''-'' @ show_int index,
                        event_date = d,
                        window = show_int windowStartHour @ '':00-'' @ show_int windowEndHour
                                   @ '':00'',
                        priority = prio,
                        incentive = (if prio = High then ''$40 credit''
                                     else if prio = Medium then ''$25 credit''
                                     else ''$15 credit''),
                        recommendation =
                          (if prio = High
                           then ''Pre-cool the building and discharge battery during the event window.''
                           else ''Shift flexible loads and monitor HVAC staging during the event window.'')\<rparr>,
                       snd r_window)))"

function events_loop ::
  "int \<Rightarrow> int \<Rightarrow> int option \<Rightarrow> int \<Rightarrow> int \<Rightarrow> DemandResponseEvent list \<Rightarrow> int
     \<Rightarrow> error + DemandResponseEvent list" where
  "events_loop year month daysInMonth eventCount index events st =
     (if index < eventCount then
        (case demand_event year month daysInMonth index st of
           Inl e \<Rightarrow> Inl e
         | Inr r \<Rightarrow>
             events_loop year month daysInMonth eventCount (index + 1) (events @ [fst r]) (snd r))
      else Inr events)"
  by pat_completeness auto
termination
  by (relation "measure (\<lambda>(year, month, daysInMonth, eventCount, index, events, st).
        nat (eventCount - index))") auto

text \<open>
  \<^verbatim>\<open>Array.prototype.sort\<close> is stable; with the comparator of the source it orders by
  the time value, as the insertion sort \<open>sort_key\<close> does.
\<close>

definition createDemandEvents :: "int \<Rightarrow> int \<Rightarrow> int \<Rightarrow> error + DemandResponseEvent list" where
  "createDemandEvents year month st =
     (let daysInMonth = daysInMonth_of year month;
          eventCount = 2 + \<lfloor>fmul (fst (rng st)) 2\<rfloor>
      in case events_loop year month daysInMonth eventCount 0 [] (snd (rng st)) of
           Inl e \<Rightarrow> Inl e
         | Inr events \<Rightarrow> Inr (sort_key (\<lambda>e. getTime (event_date e)) events))"

section \<open>The month synthesizer\<close>

text \<open>
  One turn of the loop over the days, in two steps. \<open>day_metrics\<close> holds the constants
  that the turn computes before it rounds anything, under the names they have in the
  source, and the state of the generator after their four draws. \<open>build_day\<close> is the
  whole turn: the day's record and the state of the generator after the draws for the
  metrics, the tasks and the insights.
\<close>

record DayMetrics =
  usage :: num
  solar :: num
  peakUsage :: num
  offPeak :: num
  cost :: num
  carbon :: num
  baseline :: num
  after_draws :: int

definition day_metrics ::
  "(num \<Rightarrow> num) \<Rightarrow> (num \<Rightarrow> num) \<Rightarrow> int \<Rightarrow> int \<Rightarrow> int \<Rightarrow> DayMetrics" where
  "day_metrics msin mcos daysInMonth day st =
     (let r1 = rng st;
          seasonalModifier = fadd (lit (9 / 10)) (fmul (fst r1) (lit (2 / 10)));
          angle = fmul (fdiv (of_int day) (of_int daysInMonth)) Math_PI;
          baseline' = fadd 28 (fmul (msin angle) 5);
          r2 = rng (snd r1);
          usage' = fsub (fadd (fmul baseline' seasonalModifier) (fmul (fst r2) 4)) (lit (15 / 10));
          r3 = rng (snd r2);
          solar' = fadd (fadd 11 (fmul (mcos angle) 4)) (fmul (fst r3) (lit (18 / 10)));
          r4 = rng (snd r3);
          peakShare = fadd (lit (42 / 100)) (fmul (fst r4) (lit (8 / 100)));
          peakUsage' = fmul usage' peakShare
      in \<lparr>usage = usage',
          solar = solar',
          peakUsage = peakUsage',
          offPeak = fsub usage' peakUsage',
          cost = fadd (fmul usage' (lit (18 / 100))) (fmul peakUsage' (lit (7 / 100))),
          carbon = fmul (fsub usage' (fmul solar' (lit (55 / 100)))) (lit (45 / 100)),
          baseline = baseline',
          after_draws = snd r4\<rparr>)"

definition build_day ::
  "(num \<Rightarrow> num) \<Rightarrow> (num \<Rightarrow> num) \<Rightarrow> int \<Rightarrow> int \<Rightarrow> int \<Rightarrow> int \<Rightarrow> int
     \<Rightarrow> error + (EnergyDay \<times> int)" where
  "build_day msin mcos year month daysInMonth day st =
     (let m = day_metrics msin mcos daysInMonth day st;
          derived = deriveTasks day (after_draws m)
      in case new_Date year month day of
           None \<Rightarrow> Inl RangeError
         | Some isoDate \<Rightarrow>
             (let energyDay =
                \<lparr>date = isoDate,
                 usageKwh = parseFloat (toFixed 1 (usage m)),
                 solarGenerationKwh = parseFloat (toFixed 1 (max (solar m) (5 / 2))),
                 peakUsageKwh = parseFloat (toFixed 1 (peakUsage m)),
                 offPeakUsageKwh = parseFloat (toFixed 1 (max (offPeak m) 0)),
                 carbonKg = parseFloat (toFixed 1 (max (carbon m) (7 / 2))),
                 costUsd = parseFloat (toFixed 2 (cost m)),
                 baselineKwh = parseFloat (toFixed 1 (baseline m)),
                 insights = [],
                 tasks = fst derived\<rparr>;
                generated = generateInsights energyDay (snd derived)
              in Inr (energyDay\<lparr>insights := fst generated\<rparr>, snd generated)))"

text \<open>The variables that the loop over the days updates.\<close>

record loop_state =
  rng_st :: int
  days_acc :: "EnergyDay list"
  totalUsage :: num
  totalSolar :: num
  totalCarbon :: num
  totalCost :: num
  totalBaseline :: num

definition loop_init :: "int \<Rightarrow> loop_state" where
  "loop_init st =
     \<lparr>rng_st = st, days_acc = [], totalUsage = 0, totalSolar = 0, totalCarbon = 0,
      totalCost = 0, totalBaseline = 0\<rparr>"

definition loop_step :: "loop_state \<Rightarrow> EnergyDay \<Rightarrow> int \<Rightarrow> loop_state" where
  "loop_step ls energyDay st =
     \<lparr>rng_st = st,
      days_acc = days_acc ls @ [energyDay],
      totalUsage = fadd (totalUsage ls) (usageKwh energyDay),
      totalSolar = fadd (totalSolar ls) (solarGenerationKwh energyDay),
      totalCarbon = fadd (totalCarbon ls) (carbonKg energyDay),
      totalCost = fadd (totalCost ls) (costUsd energyDay),
      totalBaseline = fadd (totalBaseline ls) (baselineKwh energyDay)\<rparr>"

function days_loop ::
  "(num \<Rightarrow> num) \<Rightarrow> (num \<Rightarrow> num) \<Rightarrow> int \<Rightarrow> int \<Rightarrow> int \<Rightarrow> int \<Rightarrow> loop_state
     \<Rightarrow> error + loop_state" where
  "days_loop msin mcos year month daysInMonth dayIndex ls =
     (if dayIndex < daysInMonth then
        (case build_day msin mcos year month daysInMonth (dayIndex + 1) (rng_st ls) of
           Inl e \<Rightarrow> Inl e
         | Inr r \<Rightarrow>
             days_loop msin mcos year month daysInMonth (dayIndex + 1)
               (loop_step ls (fst r) (snd r)))
      else Inr ls)"
  by pat_completeness auto
termination
  by (relation "measure (\<lambda>(msin, mcos, year, month, daysInMonth, dayIndex, ls).
        nat (daysInMonth - dayIndex))") auto

function weekly_loop :: "EnergyDay list \<Rightarrow> nat \<Rightarrow> num list \<Rightarrow> num list" where
  "weekly_loop ds start acc =
     (if start < length ds then
        (let slice = take 7 (drop start ds);
             avg = fdiv (foldl (\<lambda>sum d. fadd sum (usageKwh d)) 0 slice) (of_nat (length slice))
         in weekly_loop ds (start + 7) (acc @ [parseFloat (toFixed 1 avg)]))
      else acc)"
  by pat_completeness auto
termination
  by (relation "measure (\<lambda>(ds, start, acc). length ds - start)") auto

text \<open>
  \<^verbatim>\<open>formatMonthLabel\<close> prints the month and the year of \<^verbatim>\<open>new Date(year, month, 1)\<close>;
  formatting the invalid date throws. The format has no era field, and the year it
  prints is the year of the era: a year \<open>y\<close> below 1 prints as \<open>1 - y\<close>.
\<close>

definition formatMonthLabel :: "int \<Rightarrow> int \<Rightarrow> error + int \<times> int" where
  "formatMonthLabel year month =
     (case new_Date year month 1 of
        None \<Rightarrow> Inl RangeError
      | Some d \<Rightarrow>
         Inr (getMonth d, if getFullYear d < 1 then 1 - getFullYear d else getFullYear d))"

text \<open>
  \<^verbatim>\<open>buildMonth\<close> after a miss in the cache: everything between the lookup and the
  store. With NaN for \<^verbatim>\<open>daysInMonth\<close> the loop over the days does not run.
\<close>

definition buildMonth_miss ::
  "(num \<Rightarrow> num) \<Rightarrow> (num \<Rightarrow> num) \<Rightarrow> int \<Rightarrow> int \<Rightarrow> error + MonthEnergySnapshot" where
  "buildMonth_miss msin mcos year month =
     (case (case daysInMonth_of year month of
              None \<Rightarrow> Inr (loop_init (createRng (year * 97 + month * 31 + 2024)))
            | Some daysInMonth \<Rightarrow>
                days_loop msin mcos year month daysInMonth 0
                  (loop_init (createRng (year * 97 + month * 31 + 2024)))) of
        Inl e \<Rightarrow> Inl e
      | Inr ls \<Rightarrow>
         (case new_Date year month 1 of
            None \<Rightarrow> Inl RangeError
          | Some start \<Rightarrow>
             (case formatMonthLabel year month of
                Inl e \<Rightarrow> Inl e
              | Inr lbl \<Rightarrow>
                 (case createDemandEvents year month (rng_st ls) of
                    Inl e \<Rightarrow> Inl e
                  | Inr events \<Rightarrow>
                     Inr \<lparr>monthStart = start,
                          month_label = lbl,
                          days = days_acc ls,
                          totals =
                            \<lparr>total_usageKwh = parseFloat (toFixed 1 (totalUsage ls)),
                             total_solarGenerationKwh = parseFloat (toFixed 1 (totalSolar ls)),
                             total_netGridKwh =
                               parseFloat (toFixed 1 (fsub (totalUsage ls) (totalSolar ls))),
                             total_carbonKg = parseFloat (toFixed 1 (totalCarbon ls)),
                             total_baselineKwh = parseFloat (toFixed 1 (totalBaseline ls)),
                             total_costUsd = parseFloat (toFixed 2 (totalCost ls)),
                             total_targetKwh =
                               parseFloat (toFixed 1 (fmul (totalBaseline ls) (lit (95 / 100))))\<rparr>,
                          demandEvents = events,
                          recommendations =
                            [''Shift flexible loads (EV, laundry) fully into off-peak windows.'',
                             ''Pre-cool the facility before peak alert days to ride through curtailments.'',
                             ''Leverage battery discharge to cap evening peaks above 15 kWh.'',
                             ''Audit standby baseload and eliminate devices drawing >8 W overnight.''],
                          weeklyAverages = weekly_loop (days_acc ls) 0 []\<rparr>))))"

text \<open>
  \<^verbatim>\<open>MONTH_CACHE\<close> is the only state of the module: \<^verbatim>\<open>buildMonth\<close> takes the cache
  and returns it with the result. A call that throws stores nothing.
\<close>

type_synonym month_cache = "string \<rightharpoonup> MonthEnergySnapshot"

definition buildMonth ::
  "(num \<Rightarrow> num) \<Rightarrow> (num \<Rightarrow> num) \<Rightarrow> month_cache \<Rightarrow> int \<Rightarrow> int
     \<Rightarrow> (error + MonthEnergySnapshot) \<times> month_cache" where
  "buildMonth msin mcos cache year month =
     (case cache (buildMonthKey year month) of
        Some snapshot \<Rightarrow> (Inr snapshot, cache)
      | None \<Rightarrow>
         (case buildMonth_miss msin mcos year month of
            Inl e \<Rightarrow> (Inl e, cache)
          | Inr snapshot \<Rightarrow> (Inr snapshot, cache(buildMonthKey year month \<mapsto> snapshot))))"

definition getMonthSnapshot ::
  "(num \<Rightarrow> num) \<Rightarrow> (num \<Rightarrow> num) \<Rightarrow> month_cache \<Rightarrow> jsdate
     \<Rightarrow> (error + MonthEnergySnapshot) \<times> month_cache" where
  "getMonthSnapshot msin mcos cache d = buildMonth msin mcos cache (getFullYear d) (getMonth d)"

text \<open>The caches that calls of \<^verbatim>\<open>buildMonth\<close> produce from the empty cache.\<close>

inductive reachable :: "(num \<Rightarrow> num) \<Rightarrow> (num \<Rightarrow> num) \<Rightarrow> month_cache \<Rightarrow> bool"
  for msin mcos where
  reachable_empty: "reachable msin mcos Map.empty"
| reachable_call:
    "reachable msin mcos cache \<Longrightarrow> reachable msin mcos (snd (buildMonth msin mcos cache year month))"

section \<open>Notions for the proofs\<close>

text \<open>
  The states the generator is meant to be in; the years for which every date of the year
  is a valid \<^verbatim>\<open>Date\<close>; what the loop over the days maintains.
\<close>

definition valid_state :: "int \<Rightarrow> bool" where
  "valid_state st = (1 \<le> st \<and> st \<le> 2147483646)"


definition year_in_range :: "int \<Rightarrow> bool" where
  "year_in_range y = (- 271820 \<le> make_full_year y \<and> make_full_year y \<le> 275759)"

text \<open>
  \<open>built_day \<dots> k d\<close>: the record \<open>d\<close> is what the turn for day \<open>k + 1\<close> of the loop builds
  from some state of the generator.
\<close>

definition built_day ::
  "(num \<Rightarrow> num) \<Rightarrow> (num \<Rightarrow> num) \<Rightarrow> int \<Rightarrow> int \<Rightarrow> int \<Rightarrow> nat \<Rightarrow> EnergyDay \<Rightarrow> bool" where
  "built_day msin mcos year month n k d =
     (\<exists>st st'. 0 \<le> st \<and> build_day msin mcos year month n (int k + 1) st = Inr (d, st'))"

definition sums_ok :: "loop_state \<Rightarrow> bool" where
  "sums_ok l =
     (totalUsage l = foldl fadd 0 (map usageKwh (days_acc l))
      \<and> totalSolar l = foldl fadd 0 (map solarGenerationKwh (days_acc l))
      \<and> totalCarbon l = foldl fadd 0 (map carbonKg (days_acc l))
      \<and> totalCost l = foldl fadd 0 (map costUsd (days_acc l))
      \<and> totalBaseline l = foldl fadd 0 (map baselineKwh (days_acc l)))"

text \<open>
  An example input: February 2024 on a host whose sine and cosine are \<open>sin_ref\<close> and
  \<open>cos_ref\<close>.
\<close>

definition february_2024 :: "error + MonthEnergySnapshot" where
  "february_2024 = buildMonth_miss sin_ref cos_ref 2024 1"

section \<open>Properties of the rounding\<close>

text \<open>
  \<open>flog2\<close> is the binary exponent; \<open>rd\<close> is monotone, odd, and off by at most half a
  unit in the last place. The rules \<open>flog2_numeral\<close> and \<open>floor_rat_numeral\<close> let the
  simplifier evaluate \<open>rd\<close> on numerals.
\<close>

lemma pow2_int_rat: "0 \<le> n \<Longrightarrow> (of_int (2 ^ nat n) :: rat) = 2 powi n"
  by (simp add: power_int_def)

lemma flog2_bounds:
  assumes "0 < x"
  shows "2 powi flog2 x \<le> x" and "x < 2 powi (flog2 x + 1)"
proof -
  obtain p q where pq: "quotient_of x = (p, q)" by (cases "quotient_of x")
  have q: "0 < q" using quotient_of_denom_pos [OF pq] .
  have x: "x = of_int p / of_int q" using quotient_of_div [OF pq] .
  have p: "0 < p" using assms q by (simp add: x zero_less_divide_iff)
  define bp where "bp = bitlen p"
  define bq where "bq = bitlen q"
  have bp1: "1 \<le> bp" and bq1: "1 \<le> bq"
    using p q by (auto simp: bp_def bq_def bitlen_alt_def)
  have pl: "(2::rat) powi (bp - 1) \<le> of_int p" and pu: "of_int p < (2::rat) powi bp"
  proof -
    have "2 ^ nat (bp - 1) \<le> p" "p < 2 ^ nat bp"
      using bitlen_bounds [OF p] by (simp_all add: bp_def)
    then have "(of_int (2 ^ nat (bp - 1)) :: rat) \<le> of_int p" "(of_int p :: rat) < of_int (2 ^ nat bp)"
      by (simp_all only: of_int_le_iff of_int_less_iff)
    then show "(2::rat) powi (bp - 1) \<le> of_int p" "of_int p < (2::rat) powi bp"
      using bp1 by (simp_all add: power_int_def)
  qed
  have ql: "(2::rat) powi (bq - 1) \<le> of_int q" and qu: "of_int q < (2::rat) powi bq"
  proof -
    have "2 ^ nat (bq - 1) \<le> q" "q < 2 ^ nat bq"
      using bitlen_bounds [OF q] by (simp_all add: bq_def)
    then have "(of_int (2 ^ nat (bq - 1)) :: rat) \<le> of_int q" "(of_int q :: rat) < of_int (2 ^ nat bq)"
      by (simp_all only: of_int_le_iff of_int_less_iff)
    then show "(2::rat) powi (bq - 1) \<le> of_int q" "of_int q < (2::rat) powi bq"
      using bq1 by (simp_all add: power_int_def)
  qed
  have qpos: "(0::rat) < of_int q" using q by simp
  have lower: "(2::rat) powi (bp - bq - 1) \<le> x"
  proof -
    have "(2::rat) powi (bp - bq - 1) * of_int q \<le> 2 powi (bp - bq - 1) * 2 powi bq"
      using qu by (intro mult_left_mono) simp_all
    also have "\<dots> = 2 powi (bp - 1)"
      by (simp add: power_int_add [symmetric])
    also have "\<dots> \<le> of_int p" by (rule pl)
    finally show ?thesis using qpos by (simp add: x pos_le_divide_eq)
  qed
  have upper: "x < (2::rat) powi (bp - bq + 1)"
  proof -
    have "of_int p < (2::rat) powi bp" by (rule pu)
    also have "\<dots> = 2 powi (bp - bq + 1) * 2 powi (bq - 1)"
      by (simp add: power_int_add [symmetric])
    also have "\<dots> \<le> 2 powi (bp - bq + 1) * of_int q"
      using ql by (intro mult_left_mono) simp_all
    finally show ?thesis using qpos by (simp add: x pos_divide_less_eq)
  qed
  have f: "flog2 x = (if 2 powi (bp - bq) \<le> x then bp - bq else bp - bq - 1)"
    by (simp add: flog2_def pq bp_def bq_def Let_def)
  show "2 powi flog2 x \<le> x"
    using lower by (simp add: f)
  show "x < 2 powi (flog2 x + 1)"
    using upper by (auto simp: f not_le)
qed

lemma pow2_less_D: "(2::rat) powi a < 2 powi b \<Longrightarrow> a < b"
  using power_int_increasing [of b a "2::rat"] by (cases "a < b") auto

lemma flog2_unique:
  assumes "(2::rat) powi e \<le> x" "x < 2 powi (e + 1)"
  shows "flog2 x = e"
proof -
  have x: "0 < x" using assms(1) by (rule less_le_trans [rotated]) simp
  have a: "(2::rat) powi flog2 x < 2 powi (e + 1)"
    using flog2_bounds(1) [OF x] assms(2) by simp
  have b: "(2::rat) powi e < 2 powi (flog2 x + 1)"
    using flog2_bounds(2) [OF x] assms(1) by simp
  have "flog2 x < e + 1" using a by (rule pow2_less_D)
  moreover have "e < flog2 x + 1" using b by (rule pow2_less_D)
  ultimately show ?thesis by simp
qed

lemma rne_bounds: "\<bar>of_int (rne x) - x\<bar> \<le> 1 / 2"
  unfolding rne_def Let_def by (auto simp: abs_if) linarith+

lemma rne_of_int [simp]: "rne (of_int n) = n"
  by (simp add: rne_def)

lemma rne_mono: "x \<le> y \<Longrightarrow> rne x \<le> rne y"
proof -
  assume xy: "x \<le> y"
  have fl: "\<lfloor>x\<rfloor> \<le> \<lfloor>y\<rfloor>" using xy by (rule floor_mono)
  show ?thesis
  proof (cases "\<lfloor>x\<rfloor> = \<lfloor>y\<rfloor>")
    case True
    then show ?thesis using xy by (auto simp: rne_def Let_def)
  next
    case False
    then have "\<lfloor>x\<rfloor> + 1 \<le> \<lfloor>y\<rfloor>" using fl by simp
    moreover have "rne x \<le> \<lfloor>x\<rfloor> + 1" by (simp add: rne_def Let_def)
    moreover have "\<lfloor>y\<rfloor> \<le> rne y" by (simp add: rne_def Let_def)
    ultimately show ?thesis by linarith
  qed
qed

lemma ulp_pos [simp]: "0 < ulp a"
  by (simp add: ulp_def)

lemma ulp_nonneg [simp]: "0 \<le> ulp a"
  using ulp_pos [of a] by (rule less_imp_le)

lemma pow2_split: "(2::rat) powi (a + b) = 2 powi a * 2 powi b"
  by (simp add: power_int_add)

lemma pow2_53: "(2::rat) powi (e + 1) = 2 ^ 53 * 2 powi (e - 52)"
  using pow2_split [of 53 "e - 52"] by (simp add: add.commute)

lemma pow2_52: "(2::rat) powi e = 2 ^ 52 * 2 powi (e - 52)"
  using pow2_split [of 52 "e - 52"] by simp

lemma flog2_mono:
  assumes "0 < x" "x \<le> y"
  shows "flog2 x \<le> flog2 y"
proof -
  have y: "0 < y" using assms by simp
  have "(2::rat) powi flog2 x < 2 powi (flog2 y + 1)"
    using flog2_bounds(1) [OF assms(1)] flog2_bounds(2) [OF y] assms(2) by linarith
  then have "flog2 x < flog2 y + 1" by (rule pow2_less_D)
  then show ?thesis by simp
qed

lemma ulp_mono:
  assumes "0 < x" "x \<le> y"
  shows "ulp x \<le> ulp y"
  unfolding ulp_def using flog2_mono [OF assms]
  by (intro power_int_increasing) auto

lemma ulp_upper:
  assumes "0 < x"
  shows "x < 2 ^ 53 * ulp x"
proof -
  have "x < 2 powi (flog2 x + 1)" using flog2_bounds(2) [OF assms] .
  also have "\<dots> \<le> 2 powi (max (flog2 x) (- 1022) + 1)"
    by (intro power_int_increasing) auto
  also have "\<dots> = 2 ^ 53 * 2 powi (max (flog2 x) (- 1022) - 52)"
    by (rule pow2_53)
  finally show ?thesis by (simp add: ulp_def)
qed

lemma ulp_lower:
  assumes "0 < x" "- 1022 \<le> flog2 x"
  shows "2 ^ 52 * ulp x \<le> x"
proof -
  have "max (flog2 x) (- 1022) = flog2 x" using assms(2) by simp
  then have "2 ^ 52 * ulp x = (2::rat) powi flog2 x"
    using pow2_52 [of "flog2 x"] by (simp add: ulp_def)
  then show ?thesis using flog2_bounds(1) [OF assms(1)] by simp
qed

lemma rd_pos_eq: "0 < x \<Longrightarrow> rd x = of_int (rne (x / ulp x)) * ulp x"
  by (simp add: rd_def)

lemma rd_zero [simp]: "rd 0 = 0"
  by (simp add: rd_def)

lemma rd_minus: "rd (- x) = - rd x"
  by (simp add: rd_def sgn_minus)

lemma rne_nonneg: "0 \<le> x \<Longrightarrow> 0 \<le> rne x"
  using rne_mono [of 0 x] rne_of_int [of 0] by simp

lemma rd_nonneg: "0 \<le> x \<Longrightarrow> 0 \<le> rd x"
proof (cases "x = 0")
  case False
  assume "0 \<le> x"
  with False have x: "0 < x" by simp
  have "0 \<le> x / ulp x" using x by (intro divide_nonneg_pos) simp_all
  then have "0 \<le> rne (x / ulp x)" by (rule rne_nonneg)
  then show ?thesis using x by (simp add: rd_pos_eq)
qed simp

lemma rd_pos_upper:
  assumes "0 < x"
  shows "rd x \<le> 2 ^ 53 * ulp x"
proof -
  have "x / ulp x \<le> of_int (2 ^ 53)"
    using ulp_upper [OF assms] by (simp add: pos_divide_le_eq)
  then have "rne (x / ulp x) \<le> rne (of_int (2 ^ 53))" by (rule rne_mono)
  then have "rne (x / ulp x) \<le> 2 ^ 53" by (simp only: rne_of_int)
  then have "(of_int (rne (x / ulp x)) :: rat) \<le> of_int (2 ^ 53)" by (simp only: of_int_le_iff)
  then have "(of_int (rne (x / ulp x)) :: rat) * ulp x \<le> of_int (2 ^ 53) * ulp x"
    by (intro mult_right_mono) simp_all
  then show ?thesis using assms by (simp add: rd_pos_eq)
qed

lemma rd_pos_lower:
  assumes "0 < x" "- 1022 \<le> flog2 x"
  shows "2 ^ 52 * ulp x \<le> rd x"
proof -
  have "of_int (2 ^ 52) \<le> x / ulp x"
    using ulp_lower [OF assms] by (simp add: pos_le_divide_eq)
  then have "rne (of_int (2 ^ 52)) \<le> rne (x / ulp x)" by (rule rne_mono)
  then have "2 ^ 52 \<le> rne (x / ulp x)" by (simp only: rne_of_int)
  then have "(of_int (2 ^ 52) :: rat) \<le> of_int (rne (x / ulp x))" by (simp only: of_int_le_iff)
  then have "(of_int (2 ^ 52) :: rat) * ulp x \<le> of_int (rne (x / ulp x)) * ulp x"
    by (intro mult_right_mono) simp_all
  then show ?thesis using assms by (simp add: rd_pos_eq)
qed

lemma rd_mono_pos:
  assumes "0 < x" "x \<le> y"
  shows "rd x \<le> rd y"
proof -
  have y: "0 < y" using assms by simp
  define ex where "ex = max (flog2 x) (- 1022)"
  define ey where "ey = max (flog2 y) (- 1022)"
  have le: "ex \<le> ey" using flog2_mono [OF assms] by (simp add: ex_def ey_def)
  show ?thesis
  proof (cases "ex = ey")
    case True
    then have u: "ulp x = ulp y" by (simp add: ulp_def ex_def ey_def)
    have "x / ulp y \<le> y / ulp y" using assms(2) by (intro divide_right_mono) simp_all
    then have "rne (x / ulp y) \<le> rne (y / ulp y)" by (rule rne_mono)
    then have "(of_int (rne (x / ulp y)) :: rat) * ulp y \<le> of_int (rne (y / ulp y)) * ulp y"
      by (intro mult_right_mono) simp_all
    then show ?thesis using assms(1) y by (simp add: rd_pos_eq u)
  next
    case False
    then have lt: "ex + 1 \<le> ey" using le by simp
    then have n: "- 1022 \<le> flog2 y" and eyf: "ey = flog2 y"
      by (auto simp: ex_def ey_def max_def split: if_splits)
    have "rd x \<le> 2 ^ 53 * ulp x" using rd_pos_upper [OF assms(1)] .
    also have "\<dots> = 2 powi (ex + 1)"
      using pow2_53 [of ex] by (simp add: ulp_def ex_def)
    also have "\<dots> \<le> 2 powi ey" using lt by (intro power_int_increasing) auto
    also have "\<dots> = 2 ^ 52 * ulp y"
      using pow2_52 [of ey] by (simp add: ulp_def ey_def)
    also have "\<dots> \<le> rd y" using rd_pos_lower [OF y n] .
    finally show ?thesis .
  qed
qed

lemma rd_mono:
  assumes "x \<le> y"
  shows "rd x \<le> rd y"
proof -
  consider "0 < x" | "x \<le> 0" "0 \<le> y" | "y < 0" by linarith
  then show ?thesis
  proof cases
    case 1
    then show ?thesis using assms by (rule rd_mono_pos)
  next
    case 2
    have "rd x \<le> 0" using rd_nonneg [of "- x"] 2(1) by (simp add: rd_minus)
    also have "0 \<le> rd y" using 2(2) by (rule rd_nonneg)
    finally show ?thesis .
  next
    case 3
    have "rd (- y) \<le> rd (- x)" using 3 assms by (intro rd_mono_pos) simp_all
    then show ?thesis by (simp add: rd_minus)
  qed
qed

lemma rd_error: "\<bar>rd x - x\<bar> \<le> ulp \<bar>x\<bar> / 2"
proof -
  have pos: "\<bar>rd a - a\<bar> \<le> ulp a / 2" if a: "0 < a" for a
  proof -
    have "\<bar>of_int (rne (a / ulp a)) - a / ulp a\<bar> * ulp a \<le> 1 / 2 * ulp a"
      by (intro mult_right_mono rne_bounds) simp
    moreover have "\<bar>of_int (rne (a / ulp a)) - a / ulp a\<bar> * ulp a
        = \<bar>of_int (rne (a / ulp a)) * ulp a - a\<bar>"
    proof -
      have "\<bar>of_int (rne (a / ulp a)) - a / ulp a\<bar> * ulp a
          = \<bar>(of_int (rne (a / ulp a)) - a / ulp a) * ulp a\<bar>"
        by (simp add: abs_mult)
      also have "(of_int (rne (a / ulp a)) - a / ulp a) * ulp a
          = of_int (rne (a / ulp a)) * ulp a - a"
      proof -
        have "ulp a \<noteq> 0" by (simp add: ulp_def)
        then show ?thesis by (simp add: left_diff_distrib)
      qed
      finally show ?thesis .
    qed
    ultimately show ?thesis using a by (simp add: rd_pos_eq)
  qed
  consider "0 < x" | "x = 0" | "x < 0" by linarith
  then show ?thesis
  proof cases
    case 1
    then show ?thesis using pos [of x] by simp
  next
    case 2
    then show ?thesis by simp
  next
    case 3
    then have "\<bar>rd (- x) - (- x)\<bar> \<le> ulp (- x) / 2" by (intro pos) simp
    moreover have "\<bar>rd (- x) - (- x)\<bar> = \<bar>rd x - x\<bar>"
      by (simp add: rd_minus abs_minus_commute)
    ultimately show ?thesis using 3 by simp
  qed
qed

lemma ulp_bound:
  assumes "0 < a" "a < 2 powi k" "- 1021 \<le> k"
  shows "ulp a \<le> 2 powi (k - 53)"
proof -
  have "(2::rat) powi flog2 a < 2 powi k"
    using flog2_bounds(1) [OF assms(1)] assms(2) by linarith
  then have "flog2 a < k" by (rule pow2_less_D)
  then have "max (flog2 a) (- 1022) - 52 \<le> k - 53" using assms(3) by simp
  then show ?thesis unfolding ulp_def by (intro power_int_increasing) auto
qed

lemma rd_error_bound:
  assumes "\<bar>x\<bar> < 2 powi k" "- 1021 \<le> k"
  shows "\<bar>rd x - x\<bar> \<le> 2 powi (k - 54)"
proof (cases "x = 0")
  case True
  then show ?thesis by simp
next
  case False
  then have "ulp \<bar>x\<bar> \<le> 2 powi (k - 53)" using assms by (intro ulp_bound) simp_all
  then have "ulp \<bar>x\<bar> / 2 \<le> 2 powi (k - 53) / 2" by simp
  also have "\<dots> = 2 powi (k - 54)"
    using power_int_add [of "2::rat" "k - 54" 1] by simp
  finally show ?thesis using rd_error [of x] by linarith
qed

lemma flog2_step:
  assumes "0 < x"
  shows "flog2 x = (if 2 \<le> x then flog2 (x / 2) + 1 else if x < 1 then flog2 (x * 2) - 1 else 0)"
proof -
  have b: "2 powi flog2 x \<le> x" "x < 2 powi (flog2 x + 1)"
    using flog2_bounds [OF assms] by simp_all
  show ?thesis
  proof (cases "2 \<le> x")
    case True
    have "flog2 (x / 2) = flog2 x - 1"
    proof (rule flog2_unique)
      show "2 powi (flog2 x - 1) \<le> x / 2"
        using b(1) pow2_split [of "flog2 x - 1" 1] by simp
      show "x / 2 < 2 powi (flog2 x - 1 + 1)"
        using b(2) pow2_split [of "flog2 x" 1] by simp
    qed
    then show ?thesis using True by simp
  next
    case False
    show ?thesis
    proof (cases "x < 1")
      case True
      have "flog2 (x * 2) = flog2 x + 1"
      proof (rule flog2_unique)
        show "2 powi (flog2 x + 1) \<le> x * 2"
          using b(1) pow2_split [of "flog2 x" 1] by simp
        show "x * 2 < 2 powi (flog2 x + 1 + 1)"
          using b(2) pow2_split [of "flog2 x + 1" 1] by simp
      qed
      then show ?thesis using True False by simp
    next
      case F2: False
      have "flog2 x = 0"
        by (rule flog2_unique) (use False F2 in simp_all)
      then show ?thesis using False F2 by simp
    qed
  qed
qed

lemma flog2_numeral [simp]:
  "flog2 (numeral a / numeral b) =
     (if 2 \<le> (numeral a / numeral b :: rat) then flog2 (numeral a / numeral b / 2) + 1
      else if (numeral a / numeral b :: rat) < 1 then flog2 (numeral a / numeral b * 2) - 1 else 0)"
  "flog2 (numeral a) =
     (if 2 \<le> (numeral a :: rat) then flog2 (numeral a / 2) + 1 else 0)"
  "flog2 (1 / numeral b) =
     (if (1 / numeral b :: rat) < 1 then flog2 (1 / numeral b * 2) - 1 else 0)"
  "flog2 1 = 0"
  by (subst flog2_step; simp)+

lemma floor_rat_numeral [simp]:
  "\<lfloor>numeral a / numeral b :: rat\<rfloor> = numeral a div numeral b"
  "\<lfloor>1 / numeral b :: rat\<rfloor> = 1 div numeral b"
  "\<lfloor>- (numeral a / numeral b) :: rat\<rfloor> = - numeral a div numeral b"
  "\<lfloor>- (1 / numeral b) :: rat\<rfloor> = - 1 div numeral b"
  using floor_divide_of_int_eq [of "numeral a" "numeral b", where ?'a = rat]
    floor_divide_of_int_eq [of 1 "numeral b", where ?'a = rat]
    floor_divide_of_int_eq [of "- numeral a" "numeral b", where ?'a = rat]
    floor_divide_of_int_eq [of "- 1" "numeral b", where ?'a = rat]
  by simp_all

lemma rne_eval:
  "rne x = (if x - of_int \<lfloor>x\<rfloor> < 1 / 2 then \<lfloor>x\<rfloor>
            else if 1 / 2 < x - of_int \<lfloor>x\<rfloor> then \<lfloor>x\<rfloor> + 1
            else if even \<lfloor>x\<rfloor> then \<lfloor>x\<rfloor> else \<lfloor>x\<rfloor> + 1)"
  by (simp add: rne_def Let_def)

lemmas rd_simps = rd_def ulp_def rne_eval fadd_def fsub_def fmul_def fdiv_def lit_def parseFloat_def
  toFixed_def

section \<open>Properties of the sequence generator\<close>

text \<open>
  A state in \<open>[1, 2147483646]\<close> stays there: 16807 is invertible modulo 2147483647
  (its inverse is 1407677000), so the product is never a multiple of the modulus.
\<close>

lemma rng_state_nonneg: "0 \<le> st \<Longrightarrow> rng_state st = (st * 16807) mod 2147483647"
  by (simp add: rng_state_def js_rem_def sgn_if)

lemma rng_state_range: "0 \<le> st \<Longrightarrow> 0 \<le> rng_state st \<and> rng_state st \<le> 2147483646"
  by (simp add: rng_state_nonneg)

lemma rng_state_valid:
  assumes "valid_state st"
  shows "valid_state (rng_state st)"
proof -
  have st: "1 \<le> st" "st \<le> 2147483646" using assms by (simp_all add: valid_state_def)
  have eq: "rng_state st = (st * 16807) mod 2147483647"
    using st by (simp add: rng_state_nonneg)
  have "(st * 16807) mod 2147483647 \<noteq> 0"
  proof
    assume z: "(st * 16807) mod 2147483647 = 0"
    have "st mod 2147483647 = (st * (16807 * 1407677000)) mod 2147483647"
    proof -
      have "(st * (16807 * 1407677000)) mod 2147483647
          = (st mod 2147483647 * ((16807 * 1407677000) mod 2147483647)) mod 2147483647"
        by (rule mod_mult_eq [symmetric])
      then show ?thesis by simp
    qed
    also have "\<dots> = ((st * 16807) * 1407677000) mod 2147483647"
      by (simp add: mult.assoc)
    also have "\<dots> = (((st * 16807) mod 2147483647) * 1407677000) mod 2147483647"
      by (rule mod_mult_left_eq [symmetric])
    also have "\<dots> = 0" by (simp add: z)
    finally show False using st by simp
  qed
  moreover have "0 \<le> (st * 16807) mod 2147483647"
    by simp
  moreover have "(st * 16807) mod 2147483647 < 2147483647"
    by simp
  ultimately show ?thesis unfolding valid_state_def eq by linarith
qed

lemma createRng_valid:
  assumes "- 2147483646 < seed" "seed < 2147483647"
  shows "valid_state (createRng seed)"
proof -
  have "js_rem seed 2147483647 = seed"
    using assms by (auto simp: js_rem_def sgn_if abs_if)
  then show ?thesis using assms by (auto simp: createRng_def valid_state_def)
qed

lemma rd_one_minus: "rd (2147483647 / 2147483648) = 2147483647 / 2147483648"
  by (simp add: rd_simps)

lemma rng_value_range:
  assumes "valid_state st"
  shows "0 \<le> rng_value st" and "rng_value st \<le> 2147483647 / 2147483648"
proof -
  have v: "1 \<le> rng_state st" "rng_state st \<le> 2147483646"
    using rng_state_valid [OF assms] by (simp_all add: valid_state_def)
  have nn: "(0::rat) \<le> of_int (rng_state st - 1) / 2147483646"
    using v by simp
  show "0 \<le> rng_value st"
    using rd_nonneg [OF nn] by (simp add: rng_value_def fdiv_def)
  have "(of_int (rng_state st - 1) :: rat) \<le> of_int 2147483645"
    using v by (simp only: of_int_le_iff)
  then have "(of_int (rng_state st - 1) :: rat) / 2147483646 \<le> 2147483645 / 2147483646"
    by (simp add: divide_right_mono)
  also have "\<dots> \<le> (2147483647 / 2147483648 :: rat)" by simp
  finally have "rd (of_int (rng_state st - 1) / 2147483646) \<le> rd (2147483647 / 2147483648)"
    by (rule rd_mono)
  then show "rng_value st \<le> 2147483647 / 2147483648"
    by (simp add: rng_value_def fdiv_def rd_one_minus)
qed

lemma rng_state_zero: "rng_state 0 = 0"
  by (simp add: rng_state_def js_rem_def)

lemma rd_neg_small: "rd (- (1 / 2147483646)) < 0"
  by (simp add: rd_simps)

text \<open>
  The normalisation misses one residue: at the seed \<open>-2147483646\<close> the truncating
  remainder is \<open>-2147483646\<close>, the correction adds \<open>2147483646\<close>, and the state is \<open>0\<close>,
  where it stays. No call of \<^verbatim>\<open>buildMonth\<close> passes such a seed: the seeds of the years
  that a \<^verbatim>\<open>Date\<close> can hold are far smaller in magnitude.
\<close>

lemma createRng_zero_seed: "createRng (- 2147483646) = 0"
  by (simp add: createRng_def js_rem_def)

lemma buildMonth_seed_normal:
  assumes "- 280000 \<le> year" "year \<le> 280000" "0 \<le> month" "month \<le> 11"
  shows "js_rem (year * 97 + month * 31 + 2024) 2147483647 \<noteq> - 2147483646"
proof -
  have "- 2147483646 < year * 97 + month * 31 + 2024"
    "year * 97 + month * 31 + 2024 < 2147483647"
    using assms by linarith+
  then have "js_rem (year * 97 + month * 31 + 2024) 2147483647
      = year * 97 + month * 31 + 2024"
    by (auto simp: js_rem_def sgn_if abs_if)
  then show ?thesis using assms by linarith
qed





section \<open>Properties of the printed numbers and the cache key\<close>

text \<open>
  Decimal printing is injective, and so is the cache key: the year ends at the first
  minus sign after its first character, and the padded month determines the month.
\<close>

declare digits.simps [simp del]

lemma digit_char_mem: "n < 10 \<Longrightarrow> digit_char n \<in> set ''0123456789''"
  unfolding digit_char_def by (rule nth_mem) simp

lemma digit_char_inj:
  assumes "m < 10" "n < 10" "digit_char m = digit_char n"
  shows "m = n"
proof -
  have "distinct ''0123456789''" by simp
  then show ?thesis
    using assms nth_eq_iff_index_eq [of "''0123456789''" m n] by (simp add: digit_char_def)
qed

lemma digit_char_zero: "digit_char 0 = CHR ''0''"
  by (simp add: digit_char_def)

lemma digits_small: "n < 10 \<Longrightarrow> digits n = [digit_char n]"
  by (subst digits.simps) simp

lemma digits_large: "\<not> n < 10 \<Longrightarrow> digits n = digits (n div 10) @ [digit_char (n mod 10)]"
  by (subst digits.simps) simp

lemma digits_nonempty [simp]: "digits n \<noteq> []"
  by (cases "n < 10") (simp_all add: digits_small digits_large)

lemma digits_nonempty' [simp]: "[] \<noteq> digits n"
  using digits_nonempty [of n] by (simp del: digits_nonempty)

lemma digits_set: "set (digits n) \<subseteq> set ''0123456789''"
proof (induction n rule: digits.induct)
  case (1 n)
  show ?case
  proof (cases "n < 10")
    case True
    then show ?thesis using digit_char_mem [of n] by (simp add: digits_small)
  next
    case False
    then show ?thesis
      using 1 digit_char_mem [of "n mod 10"] by (simp add: digits_large)
  qed
qed

lemma digits_no_minus: "CHR ''-'' \<notin> set (digits n)"
  using digits_set [of n] by auto

lemma digits_inj: "digits m = digits n \<Longrightarrow> m = n"
proof (induction m arbitrary: n rule: digits.induct)
  case (1 m)
  show ?case
  proof (cases "m < 10")
    case m: True
    show ?thesis
    proof (cases "n < 10")
      case True
      then show ?thesis using m 1(2) by (simp add: digits_small digit_char_inj)
    next
      case False
      then show ?thesis using m 1(2) by (simp add: digits_small digits_large)
    qed
  next
    case m: False
    show ?thesis
    proof (cases "n < 10")
      case True
      then show ?thesis using m 1(2) by (simp add: digits_small digits_large)
    next
      case False
      then have e: "digits (m div 10) = digits (n div 10)"
        "digit_char (m mod 10) = digit_char (n mod 10)"
        using m 1(2) by (simp_all add: digits_large)
      have "m div 10 = n div 10" using 1(1) [OF m e(1)] .
      moreover have "m mod 10 = n mod 10" using e(2) by (intro digit_char_inj) simp_all
      ultimately show ?thesis by (metis div_mult_mod_eq)
    qed
  qed
qed

lemma hd_digits_nonzero: "0 < n \<Longrightarrow> hd (digits n) \<noteq> CHR ''0''"
proof (induction n rule: digits.induct)
  case (1 n)
  show ?case
  proof (cases "n < 10")
    case True
    then show ?thesis
      using 1(2) digit_char_inj [of n 0] by (auto simp: digits_small digit_char_zero)
  next
    case False
    then have "0 < n div 10" by simp
    then show ?thesis using 1(1) [OF False] False by (simp add: digits_large)
  qed
qed

lemma length_digits: "(length (digits n) = Suc 0) = (n < 10)"
  by (cases "n < 10") (simp_all add: digits_small digits_large)

lemma show_int_nonempty [simp]: "show_int a \<noteq> []"
  by (simp add: show_int_def)

lemma show_int_inj: "show_int a = show_int b \<Longrightarrow> a = b"
proof -
  assume e: "show_int a = show_int b"
  consider "a < 0" "b < 0" | "a < 0" "0 \<le> b" | "0 \<le> a" "b < 0" | "0 \<le> a" "0 \<le> b"
    by linarith
  then show ?thesis
  proof cases
    case 1
    then have "nat (- a) = nat (- b)" using e by (simp add: show_int_def digits_inj)
    then show ?thesis using 1 by simp
  next
    case 2
    then have "CHR ''-'' # digits (nat (- a)) = digits (nat b)"
      using e by (simp add: show_int_def)
    then have "CHR ''-'' \<in> set (digits (nat b))" by (metis list.set_intros(1))
    then show ?thesis using digits_no_minus [of "nat b"] by simp
  next
    case 3
    then have "CHR ''-'' # digits (nat (- b)) = digits (nat a)"
      using e by (simp add: show_int_def)
    then have "CHR ''-'' \<in> set (digits (nat a))" by (metis list.set_intros(1))
    then show ?thesis using digits_no_minus [of "nat a"] by simp
  next
    case 4
    then have "nat a = nat b" using e by (simp add: show_int_def digits_inj)
    then show ?thesis using 4 by simp
  qed
qed

lemma show_int_no_minus: "0 \<le> a \<Longrightarrow> CHR ''-'' \<notin> set (show_int a)"
  by (simp add: show_int_def digits_no_minus)

lemma split_at_minus:
  assumes "CHR ''-'' \<notin> set xs" "CHR ''-'' \<notin> set ys"
    "xs @ CHR ''-'' # r = ys @ CHR ''-'' # r'"
  shows "xs = ys \<and> r = r'"
proof -
  have t: "takeWhile (\<lambda>c. c \<noteq> CHR ''-'') (zs @ CHR ''-'' # q) = zs"
    if "CHR ''-'' \<notin> set zs" for zs q
    using that by (induction zs) auto
  have "xs = ys" using t [OF assms(1), of r] t [OF assms(2), of r'] assms(3) by simp
  then show ?thesis using assms(3) by simp
qed

lemma show_int_minus_split:
  assumes "show_int a @ CHR ''-'' # r = show_int b @ CHR ''-'' # r'"
  shows "a = b \<and> r = r'"
proof -
  have neg: "a < 0 \<Longrightarrow> b < 0" if "show_int a @ CHR ''-'' # r = show_int b @ CHR ''-'' # r'"
    for a b r r'
  proof (rule ccontr)
    assume a: "a < 0" and "\<not> b < 0"
    then have "hd (show_int b @ CHR ''-'' # r') \<in> set (digits (nat b))"
      by (simp add: show_int_def)
    moreover have "hd (show_int a @ CHR ''-'' # r) = CHR ''-''"
      using a by (simp add: show_int_def)
    ultimately show False using that digits_no_minus [of "nat b"] by simp
  qed
  show ?thesis
  proof (cases "a < 0")
    case True
    then have b: "b < 0" using neg [OF assms] by simp
    have "digits (nat (- a)) @ CHR ''-'' # r = digits (nat (- b)) @ CHR ''-'' # r'"
      using assms True b by (simp add: show_int_def)
    then have "digits (nat (- a)) = digits (nat (- b)) \<and> r = r'"
      by (intro split_at_minus digits_no_minus)
    then show ?thesis using True b digits_inj [of "nat (- a)" "nat (- b)"] by auto
  next
    case False
    then have b: "\<not> b < 0" using neg [OF assms [symmetric]] by auto
    have "digits (nat a) @ CHR ''-'' # r = digits (nat b) @ CHR ''-'' # r'"
      using assms False b by (simp add: show_int_def)
    then have "digits (nat a) = digits (nat b) \<and> r = r'"
      by (intro split_at_minus digits_no_minus)
    then show ?thesis using False b digits_inj [of "nat a" "nat b"] by auto
  qed
qed

lemma padStart2_cases:
  "padStart2 (show_int a) =
     (if 0 \<le> a \<and> a < 10 then CHR ''0'' # show_int a else show_int a)"
proof (cases "0 \<le> a \<and> a < 10")
  case True
  then have "nat a < 10" by linarith
  then have "length (show_int a) = 1" using True by (simp add: show_int_def length_digits)
  then show ?thesis using True by (simp add: padStart2_def)
next
  case False
  have "2 \<le> length (show_int a)"
  proof (cases "a < 0")
    case True
    then show ?thesis
      using digits_nonempty [of "nat (- a)"]
      by (cases "digits (nat (- a))") (simp_all add: show_int_def)
  next
    case F: False
    then have "\<not> nat a < 10" using False by simp
    then have "length (digits (nat a)) \<noteq> 1" by (simp add: length_digits)
    then show ?thesis
      using F digits_nonempty [of "nat a"]
      by (cases "digits (nat a)") (auto simp: show_int_def Suc_le_eq)
  qed
  then show ?thesis using False by (simp add: padStart2_def)
qed

lemma padStart2_inj:
  assumes "padStart2 (show_int a) = padStart2 (show_int b)"
  shows "a = b"
proof -
  have lead: False if "0 \<le> a" "a < 10" "\<not> (0 \<le> b \<and> b < 10)"
    "CHR ''0'' # show_int a = show_int b" for a b
  proof (cases "b < 0")
    case True
    then show False using that(4) by (simp add: show_int_def)
  next
    case False
    then have "0 < nat b" using that(3) by simp
    then have "hd (digits (nat b)) \<noteq> CHR ''0''" by (rule hd_digits_nonzero)
    moreover have "hd (show_int b) = CHR ''0''" using that(4) [symmetric] by simp
    ultimately show False using False by (simp add: show_int_def)
  qed
  consider "0 \<le> a \<and> a < 10" "0 \<le> b \<and> b < 10"
    | "0 \<le> a \<and> a < 10" "\<not> (0 \<le> b \<and> b < 10)"
    | "\<not> (0 \<le> a \<and> a < 10)" "0 \<le> b \<and> b < 10"
    | "\<not> (0 \<le> a \<and> a < 10)" "\<not> (0 \<le> b \<and> b < 10)"
    by blast
  then show ?thesis
  proof cases
    case 1
    then show ?thesis using assms by (simp add: padStart2_cases show_int_inj)
  next
    case 2
    then have "CHR ''0'' # show_int a = show_int b"
      using assms by (simp add: padStart2_cases)
    then show ?thesis using lead [of a b] 2 by blast
  next
    case 3
    then have "CHR ''0'' # show_int b = show_int a"
      using assms by (auto simp: padStart2_cases)
    then show ?thesis using lead [of b a] 3 by blast
  next
    case 4
    then show ?thesis using assms by (auto simp: padStart2_cases show_int_inj)
  qed
qed

lemma buildMonthKey_inj:
  assumes "buildMonthKey year month = buildMonthKey year' month'"
  shows "year = year' \<and> month = month'"
proof -
  have "show_int year @ CHR ''-'' # padStart2 (show_int (month + 1))
      = show_int year' @ CHR ''-'' # padStart2 (show_int (month' + 1))"
    using assms by (simp add: buildMonthKey_def)
  then have "year = year' \<and> padStart2 (show_int (month + 1)) = padStart2 (show_int (month' + 1))"
    by (rule show_int_minus_split)
  then show ?thesis using padStart2_inj [of "month + 1" "month' + 1"] by simp
qed

section \<open>Properties of the dates\<close>

declare norm_day.simps [simp del]

lemma norm_day_in_month:
  "1 \<le> d \<Longrightarrow> d \<le> days_in_month y m \<Longrightarrow> norm_day y m d = (y, m, d)"
  by (subst norm_day.simps) simp

lemma norm_day_zero:
  "norm_day y m 0 =
     (fst (prev_month y m), snd (prev_month y m),
      days_in_month (fst (prev_month y m)) (snd (prev_month y m)))"
proof -
  have "28 \<le> days_in_month (fst (prev_month y m)) (snd (prev_month y m))"
    using days_in_month_bounds by blast
  then show ?thesis
    by (subst norm_day.simps) (simp add: norm_day_in_month)
qed

lemma norm_day_overflow:
  assumes "days_in_month y m < d" "d \<le> days_in_month y m + 28"
  shows "norm_day y m d = (fst (next_month y m), snd (next_month y m), d - days_in_month y m)"
proof -
  have "28 \<le> days_in_month (fst (next_month y m)) (snd (next_month y m))"
    "28 \<le> days_in_month y m"
    using days_in_month_bounds by blast+
  then show ?thesis using assms
    by (subst norm_day.simps) (simp add: norm_day_in_month)
qed

lemma month_offset_bounds:
  "0 \<le> sum_list (map (\<lambda>k. days_in_month y (int k)) [0..<n])
   \<and> sum_list (map (\<lambda>k. days_in_month y (int k)) [0..<n]) \<le> 31 * int n"
proof (induction n)
  case 0
  then show ?case by simp
next
  case (Suc n)
  then show ?case using days_in_month_bounds [of y "int n"] by simp
qed

lemma int_div_bounds:
  fixes a b :: int
  assumes "0 < b"
  shows "b * (a div b) \<le> a" and "a < b * (a div b) + b"
  using mult_div_mod_eq [of b a] pos_mod_bound [OF assms, of a] pos_mod_sign [OF assms, of a]
  by linarith+

lemma day_from_year_linear:
  fixes y a b c :: int
  assumes "4 * a \<le> y - 1969" "y - 1969 < 4 * a + 4"
    "100 * b \<le> y - 1901" "y - 1901 < 100 * b + 100"
    "400 * c \<le> y - 1601" "y - 1601 < 400 * c + 400"
    "- 271820 \<le> y" "y \<le> 275759"
  shows "- 99999750 \<le> 365 * (y - 1970) + a - b + c"
    and "365 * (y - 1970) + a - b + c \<le> 99999400"
proof -
  have e: "365 * (y - 1970) + a - b + c = 365 * y - 719050 + a - b + c"
    by simp
  show "- 99999750 \<le> 365 * (y - 1970) + a - b + c"
    unfolding e using assms by linarith
  show "365 * (y - 1970) + a - b + c \<le> 99999400"
    unfolding e using assms by linarith
qed

lemma day_from_year_range:
  assumes "- 271820 \<le> y" "y \<le> 275759"
  shows "- 99999750 \<le> day_from_year y" and "day_from_year y \<le> 99999400"
proof -
  have a: "4 * ((y - 1969) div 4) \<le> y - 1969" "y - 1969 < 4 * ((y - 1969) div 4) + 4"
    by (rule int_div_bounds; simp)+
  have b: "100 * ((y - 1901) div 100) \<le> y - 1901" "y - 1901 < 100 * ((y - 1901) div 100) + 100"
    by (rule int_div_bounds; simp)+
  have c: "400 * ((y - 1601) div 400) \<le> y - 1601" "y - 1601 < 400 * ((y - 1601) div 400) + 400"
    by (rule int_div_bounds; simp)+
  show "- 99999750 \<le> day_from_year y"
    unfolding day_from_year_def by (rule day_from_year_linear(1) [OF a b c assms])
  show "day_from_year y \<le> 99999400"
    unfolding day_from_year_def by (rule day_from_year_linear(2) [OF a b c assms])
qed

lemma day_number_range:
  assumes "- 271820 \<le> y" "y \<le> 275759" "0 \<le> m" "m \<le> 11" "- 40 \<le> d" "d \<le> 70"
  shows "\<bar>day_number y m d\<bar> \<le> 100000000"
proof -
  have o: "0 \<le> sum_list (map (\<lambda>k. days_in_month y (int k)) [0..<nat m])"
    "sum_list (map (\<lambda>k. days_in_month y (int k)) [0..<nat m]) \<le> 341"
    using month_offset_bounds [of y "nat m"] assms(3,4) by auto
  have l: "- 99999750 \<le> day_from_year y" and u: "day_from_year y \<le> 99999400"
    using day_from_year_range [OF assms(1,2)] by simp_all
  show ?thesis
    using o l u assms(5,6) unfolding day_number_def by linarith
qed

lemma time_clip_date:
  assumes "- 271820 \<le> y" "y \<le> 275759" "0 \<le> m" "m \<le> 11" "- 40 \<le> d" "d \<le> 70"
  shows "time_clip \<lparr>getFullYear = y, getMonth = m, getDate = d, timeInDay = 0\<rparr>
           = Some \<lparr>getFullYear = y, getMonth = m, getDate = d, timeInDay = 0\<rparr>"
  using day_number_range [OF assms] by (simp add: time_clip_def getTime_def)

lemma new_Date_in_month:
  assumes "year_in_range year" "0 \<le> month" "month \<le> 11"
    "1 \<le> d" "d \<le> days_in_month (make_full_year year) month"
  shows "new_Date year month d =
    Some \<lparr>getFullYear = make_full_year year, getMonth = month, getDate = d, timeInDay = 0\<rparr>"
proof -
  have m: "month div 12 = 0" "month mod 12 = month" using assms(2,3) by simp_all
  have d: "d \<le> 70" using assms(5) days_in_month_bounds [of "make_full_year year" month] by simp
  show ?thesis
    using assms d
    by (simp add: new_Date_def make_day_def m norm_day_in_month time_clip_date year_in_range_def)
qed

lemma daysInMonth_of_eq:
  assumes "year_in_range year" "0 \<le> month" "month \<le> 11"
  shows "daysInMonth_of year month = Some (days_in_month (make_full_year year) month)"
proof -
  define y where "y = make_full_year year"
  have yr: "- 271820 \<le> y" "y \<le> 275759" using assms(1) by (simp_all add: year_in_range_def y_def)
  have p: "prev_month (y + (month + 1) div 12) ((month + 1) mod 12) = (y, month)"
  proof (cases "month = 11")
    case True
    then show ?thesis by (simp add: prev_month_def)
  next
    case False
    then have "(month + 1) div 12 = 0" "(month + 1) mod 12 = month + 1"
      using assms(2,3) by simp_all
    then show ?thesis using assms(2) by (simp add: prev_month_def)
  qed
  have b: "days_in_month y month \<le> 70" "- 40 \<le> days_in_month y month"
    using days_in_month_bounds [of y month] by simp_all
  show ?thesis
    using yr assms(2,3) b
    by (simp add: daysInMonth_of_def new_Date_def make_day_def norm_day_zero p time_clip_date
        flip: y_def)
qed

text \<open>
  Claim C4. \<^verbatim>\<open>getAdjacentMonth\<close> calls \<^verbatim>\<open>setMonth\<close> before \<^verbatim>\<open>setDate(1)\<close>, so
  the day of the input date is still in place when the month changes: 31 January plus one
  month is 31 February, which \<^verbatim>\<open>setMonth\<close> carries over to 2 March (2024 is a leap
  year), and \<^verbatim>\<open>setDate(1)\<close> then yields 1 March, two months after January. (For an
  input date whose day is at most 28 the result is the first day of the month \<open>offset\<close>
  months away: \<open>getAdjacentMonth_day_le_28\<close>.)
\<close>

theorem getAdjacentMonth_jan_31:
  "getAdjacentMonth \<lparr>getFullYear = 2024, getMonth = 0, getDate = 31, timeInDay = 0\<rparr> 1
     = Some \<lparr>getFullYear = 2024, getMonth = 2, getDate = 1, timeInDay = 0\<rparr>"
proof -
  have a: "norm_day 2024 1 31 = (2024, 2, 2)"
    using norm_day_overflow [of 2024 1 31]
    by (simp add: days_in_month_def is_leap_def next_month_def)
  have b: "norm_day 2024 2 1 = (2024, 2, 1)"
    by (rule norm_day_in_month) (simp_all add: days_in_month_def)
  have s: "setMonth \<lparr>getFullYear = 2024, getMonth = 0, getDate = 31, timeInDay = 0\<rparr> 1
      = Some \<lparr>getFullYear = 2024, getMonth = 2, getDate = 2, timeInDay = 0\<rparr>"
    by (simp add: setMonth_def make_day_def a time_clip_date)
  have t: "setDate \<lparr>getFullYear = 2024, getMonth = 2, getDate = 2, timeInDay = 0\<rparr> 1
      = Some \<lparr>getFullYear = 2024, getMonth = 2, getDate = 1, timeInDay = 0\<rparr>"
    by (simp add: setDate_def make_day_def b time_clip_date)
  show ?thesis by (simp add: getAdjacentMonth_def s t)
qed

lemma getAdjacentMonth_day_le_28:
  assumes "getAdjacentMonth t offset = Some r"
    "1 \<le> getDate t" "getDate t \<le> 28" "0 \<le> getMonth t" "getMonth t \<le> 11"
  shows "getDate r = 1
    \<and> getFullYear r * 12 + getMonth r = getFullYear t * 12 + getMonth t + offset
    \<and> 0 \<le> getMonth r \<and> getMonth r \<le> 11 \<and> timeInDay r = timeInDay t"
proof -
  define y where "y = getFullYear t + (getMonth t + offset) div 12"
  define m where "m = (getMonth t + offset) mod 12"
  have m: "0 \<le> m" "m \<le> 11" "m div 12 = 0" "m mod 12 = m" by (simp_all add: m_def)
  have dm: "28 \<le> days_in_month y m" using days_in_month_bounds by blast
  have n1: "norm_day y m (getDate t) = (y, m, getDate t)"
    using assms(2,3) dm by (intro norm_day_in_month) simp_all
  have n2: "norm_day y m 1 = (y, m, 1)"
    using dm by (intro norm_day_in_month) simp_all
  obtain u where u: "setMonth t (getMonth t + offset) = Some u" "setDate u 1 = Some r"
    using assms(1) by (auto simp: getAdjacentMonth_def split: option.splits)
  have ueq: "u = \<lparr>getFullYear = y, getMonth = m, getDate = getDate t, timeInDay = timeInDay t\<rparr>"
    using u(1) by (auto simp: setMonth_def make_day_def n1 time_clip_def split: if_splits
        simp flip: y_def m_def)
  have req: "r = \<lparr>getFullYear = y, getMonth = m, getDate = 1, timeInDay = timeInDay t\<rparr>"
    using u(2) by (auto simp: ueq setDate_def make_day_def n2 m time_clip_def split: if_splits)
  have "y * 12 + m = getFullYear t * 12 + getMonth t + offset"
    unfolding y_def m_def by (simp add: algebra_simps)
  then show ?thesis using m by (simp add: req)
qed

section \<open>Properties of the loop over the days\<close>

declare days_loop.simps [simp del]

declare events_loop.simps [simp del]

declare weekly_loop.simps [simp del]

lemma norm_day_range:
  "norm_day y m d = (y', m', d') \<Longrightarrow> 1 \<le> d' \<and> d' \<le> days_in_month y' m'"
proof (induction y m d rule: norm_day.induct)
  case (1 y m d)
  show ?case
  proof (cases "d < 1")
    case True
    then show ?thesis using 1(1) 1(3) by (subst (asm) norm_day.simps) simp
  next
    case False
    show ?thesis
    proof (cases "days_in_month y m < d")
      case True
      then show ?thesis using False 1(2) 1(3) by (subst (asm) norm_day.simps) simp
    next
      case F: False
      then show ?thesis using False 1(3) by (subst (asm) norm_day.simps) auto
    qed
  qed
qed

lemma daysInMonth_of_bounds:
  assumes "daysInMonth_of year month = Some n"
  shows "28 \<le> n \<and> n \<le> 31"
proof -
  define y where "y = make_full_year year + (month + 1) div 12"
  define m where "m = (month + 1) mod 12"
  have "n = days_in_month (fst (prev_month y m)) (snd (prev_month y m))"
    using assms
    by (auto simp: daysInMonth_of_def new_Date_def make_day_def norm_day_zero time_clip_def
        split: if_splits simp flip: y_def m_def)
  then show ?thesis using days_in_month_bounds by simp
qed

text \<open>A state of the generator is never negative.\<close>

lemma createRng_nonneg: "0 \<le> createRng seed"
proof -
  have "- 2147483647 < js_rem seed 2147483647"
    using pos_mod_bound [of 2147483647 "\<bar>seed\<bar>"] pos_mod_sign [of 2147483647 "\<bar>seed\<bar>"]
    by (auto simp: js_rem_def sgn_if)
  then show ?thesis by (auto simp: createRng_def Let_def)
qed

lemma rng_state_nonneg': "0 \<le> st \<Longrightarrow> 0 \<le> rng_state st"
  using rng_state_range by blast

lemma deriveTasks_state_nonneg: "0 \<le> st \<Longrightarrow> 0 \<le> snd (deriveTasks day st)"
  by (auto simp: deriveTasks_def rng_def rng_state_nonneg' split: option.splits)

lemma deriveTasks_state_valid: "valid_state st \<Longrightarrow> valid_state (snd (deriveTasks day st))"
  by (auto simp: deriveTasks_def rng_def rng_state_valid split: option.splits)

lemma generateInsights_state_nonneg: "0 \<le> st \<Longrightarrow> 0 \<le> snd (generateInsights d st)"
  by (simp add: generateInsights_def Let_def rng_def rng_state_nonneg')

lemma generateInsights_state_valid: "valid_state st \<Longrightarrow> valid_state (snd (generateInsights d st))"
  by (simp add: generateInsights_def Let_def rng_def rng_state_valid)

lemma day_metrics_state:
  "after_draws (day_metrics msin mcos n day st)
     = rng_state (rng_state (rng_state (rng_state st)))"
  by (simp add: day_metrics_def Let_def rng_def)

lemma build_day_state_nonneg:
  assumes "build_day msin mcos year month n day st = Inr (d, st')" "0 \<le> st"
  shows "0 \<le> st'"
  using assms
  by (auto simp: build_day_def Let_def day_metrics_state rng_state_nonneg'
      deriveTasks_state_nonneg generateInsights_state_nonneg split: option.splits)

lemma build_day_state_valid:
  assumes "build_day msin mcos year month n day st = Inr (d, st')" "valid_state st"
  shows "valid_state st'"
  using assms
  by (auto simp: build_day_def Let_def day_metrics_state rng_state_valid
      deriveTasks_state_valid generateInsights_state_valid split: option.splits)

text \<open>The invariant rule of the loop over the days.\<close>

lemma days_loop_invariant:
  assumes "days_loop msin mcos year month n i ls = Inr ls'"
    and "P i ls"
    and "\<And>j l d st. i \<le> j \<Longrightarrow> j < n \<Longrightarrow> P j l
           \<Longrightarrow> build_day msin mcos year month n (j + 1) (rng_st l) = Inr (d, st)
           \<Longrightarrow> P (j + 1) (loop_step l d st)"
  shows "P (max i n) ls'"
  using assms
proof (induction msin mcos year month n i ls rule: days_loop.induct)
  case (1 msin mcos year month n i ls)
  show ?case
  proof (cases "i < n")
    case False
    then have "ls' = ls" using 1(2) by (subst (asm) days_loop.simps) simp
    moreover have "max i n = i" using False by simp
    ultimately show ?thesis using 1(3) by simp
  next
    case True
    then obtain d st where b: "build_day msin mcos year month n (i + 1) (rng_st ls) = Inr (d, st)"
      and r: "days_loop msin mcos year month n (i + 1) (loop_step ls d st) = Inr ls'"
      using 1(2) by (subst (asm) days_loop.simps) (auto split: sum.splits)
    have p: "P (i + 1) (loop_step ls d st)"
      using 1(4) [OF _ True 1(3) b] by simp
    have step: "P (j + 1) (loop_step l d' st')"
      if "i + 1 \<le> j" "j < n" "P j l"
        "build_day msin mcos year month n (j + 1) (rng_st l) = Inr (d', st')" for j l d' st'
      using that 1(4) [of j l d' st'] by simp
    have "P (max (i + 1) n) ls'"
      by (rule 1(1) [OF True b]) (use r p step in simp_all)
    moreover have "max (i + 1) n = max i n" using True by simp
    ultimately show ?thesis by simp
  qed
qed

lemma days_loop_result:
  assumes run: "days_loop msin mcos year month n 0 (loop_init st0) = Inr ls"
    and st0: "0 \<le> st0" and n: "0 \<le> n"
  shows "length (days_acc ls) = nat n"
    and "\<And>k. k < nat n \<Longrightarrow> built_day msin mcos year month n k (days_acc ls ! k)"
    and "sums_ok ls"
    and "0 \<le> rng_st ls"
    and "valid_state st0 \<Longrightarrow> valid_state (rng_st ls)"
proof -
  define P where "P = (\<lambda>(j::int) l.
      int (length (days_acc l)) = j
      \<and> (\<forall>k < length (days_acc l). built_day msin mcos year month n k (days_acc l ! k))
      \<and> sums_ok l \<and> 0 \<le> rng_st l \<and> (if valid_state st0 then valid_state (rng_st l) else True))"
  have init: "P 0 (loop_init st0)"
    using st0 by (simp add: P_def loop_init_def sums_ok_def)
  have step: "P (j + 1) (loop_step l d st)"
    if "0 \<le> j" "j < n" "P j l"
      "build_day msin mcos year month n (j + 1) (rng_st l) = Inr (d, st)" for j l d st
  proof -
    have len: "int (length (days_acc l)) = j" and old: "\<forall>k < length (days_acc l).
        built_day msin mcos year month n k (days_acc l ! k)"
      and s: "sums_ok l" and nn: "0 \<le> rng_st l"
      and v: "valid_state st0 \<Longrightarrow> valid_state (rng_st l)"
      using that(3) by (auto simp: P_def split: if_splits)
    have new: "built_day msin mcos year month n (length (days_acc l)) d"
      unfolding built_day_def using that(4) nn len by auto
    have all: "\<forall>k < length (days_acc l @ [d]).
        built_day msin mcos year month n k ((days_acc l @ [d]) ! k)"
      using old new by (auto simp: nth_append less_Suc_eq)
    have "0 \<le> st" using build_day_state_nonneg [OF that(4) nn] .
    moreover have "valid_state st0 \<Longrightarrow> valid_state st"
      using build_day_state_valid [OF that(4)] v by simp
    moreover have "sums_ok (loop_step l d st)"
      using s by (simp add: sums_ok_def loop_step_def)
    ultimately show ?thesis
      using all len by (simp add: P_def loop_step_def)
  qed
  have "P (max 0 n) ls"
    by (rule days_loop_invariant [OF run, of P]) (use init step in auto)
  then have fin: "P n ls" using n by (simp add: max_def)
  show "length (days_acc ls) = nat n" using fin by (auto simp: P_def)
  show "built_day msin mcos year month n k (days_acc ls ! k)" if "k < nat n" for k
    using fin that by (auto simp: P_def)
  show "sums_ok ls" using fin by (simp add: P_def)
  show "0 \<le> rng_st ls" using fin by (simp add: P_def)
  show "valid_state (rng_st ls)" if "valid_state st0" using fin that by (simp add: P_def)
qed

text \<open>With NaN for the number of days, the first demand response event throws.\<close>

lemma rd_minus_one: "rd (- 1) = - 1"
  by (simp add: rd_simps)

lemma rng_value_lower:
  assumes "0 \<le> st"
  shows "- (1 / 2) \<le> rng_value st"
proof -
  have "0 \<le> rng_state st" using assms by (rule rng_state_nonneg')
  then have "(- 1 :: rat) \<le> of_int (rng_state st - 1)" by simp
  then have "(- 1 :: rat) / 2147483646 \<le> of_int (rng_state st - 1) / 2147483646"
    by (rule divide_right_mono) simp
  then have "rd (- 1 / 2147483646) \<le> rd (of_int (rng_state st - 1) / 2147483646)"
    by (rule rd_mono)
  moreover have "- (1 / 2) \<le> rd (- 1 / 2147483646)" by (simp add: rd_simps)
  ultimately show ?thesis by (simp add: rng_value_def fdiv_def)
qed

lemma eventCount_positive:
  assumes "0 \<le> st"
  shows "1 \<le> 2 + \<lfloor>fmul (fst (rng st)) 2\<rfloor>"
proof -
  have "- 1 \<le> rng_value st * 2" using rng_value_lower [OF assms] by simp
  then have "rd (- 1) \<le> rd (rng_value st * 2)" by (rule rd_mono)
  then have "- 1 \<le> fmul (rng_value st) 2" by (simp add: rd_minus_one fmul_def)
  then have "- 1 \<le> \<lfloor>fmul (rng_value st) 2\<rfloor>" by (simp add: le_floor_iff)
  then show ?thesis by (simp add: rng_def)
qed

lemma createDemandEvents_NaN:
  assumes "daysInMonth_of year month = None" "0 \<le> st"
  shows "createDemandEvents year month st = Inl RangeError"
proof -
  have "events_loop year month None (2 + \<lfloor>fmul (fst (rng st)) 2\<rfloor>) 0 [] (snd (rng st))
      = Inl RangeError"
    using eventCount_positive [OF assms(2)]
    by (subst events_loop.simps) (simp add: demand_event_def Let_def)
  then show ?thesis using assms(1) by (simp add: createDemandEvents_def Let_def)
qed

text \<open>What a generated snapshot consists of.\<close>

lemma snapshot_parts:
  assumes "buildMonth_miss msin mcos year month = Inr s"
  obtains n ls where
    "daysInMonth_of year month = Some n" "28 \<le> n" "n \<le> 31"
    "days_loop msin mcos year month n 0
       (loop_init (createRng (year * 97 + month * 31 + 2024))) = Inr ls"
    "days s = days_acc ls"
    "new_Date year month 1 = Some (monthStart s)"
    "createDemandEvents year month (rng_st ls) = Inr (demandEvents s)"
    "total_usageKwh (totals s) = parseFloat (toFixed 1 (totalUsage ls))"
    "total_solarGenerationKwh (totals s) = parseFloat (toFixed 1 (totalSolar ls))"
    "total_carbonKg (totals s) = parseFloat (toFixed 1 (totalCarbon ls))"
    "total_baselineKwh (totals s) = parseFloat (toFixed 1 (totalBaseline ls))"
    "total_costUsd (totals s) = parseFloat (toFixed 2 (totalCost ls))"
    "total_targetKwh (totals s)
       = parseFloat (toFixed 1 (fmul (totalBaseline ls) (lit (95 / 100))))"
proof (cases "daysInMonth_of year month")
  case None
  have "createDemandEvents year month
      (rng_st (loop_init (createRng (year * 97 + month * 31 + 2024)))) = Inl RangeError"
    by (rule createDemandEvents_NaN [OF None]) (simp add: loop_init_def createRng_nonneg)
  then have "isl (buildMonth_miss msin mcos year month)"
    by (simp add: buildMonth_miss_def None split: option.splits sum.splits)
  then show ?thesis using assms by simp
next
  case (Some n)
  obtain ls where ls: "days_loop msin mcos year month n 0
       (loop_init (createRng (year * 97 + month * 31 + 2024))) = Inr ls"
    using assms by (auto simp: buildMonth_miss_def Some split: sum.splits)
  show ?thesis
  proof (rule that [OF Some _ _ ls])
    show "28 \<le> n" "n \<le> 31" using daysInMonth_of_bounds [OF Some] by simp_all
  qed (use assms in \<open>auto simp: buildMonth_miss_def Some ls split: sum.splits option.splits\<close>)
qed

lemma snapshot_days:
  assumes "buildMonth_miss msin mcos year month = Inr s"
  shows "\<exists>n. daysInMonth_of year month = Some n \<and> 28 \<le> n \<and> n \<le> 31
    \<and> length (days s) = nat n
    \<and> (\<forall>k < nat n. built_day msin mcos year month n k (days s ! k))"
proof -
  obtain n ls where p: "daysInMonth_of year month = Some n" "28 \<le> n" "n \<le> 31"
    "days_loop msin mcos year month n 0
       (loop_init (createRng (year * 97 + month * 31 + 2024))) = Inr ls"
    "days s = days_acc ls"
    using assms by (rule snapshot_parts)
  have n0: "0 \<le> n" using p(2) by simp
  show ?thesis
    using p(1,2,3) days_loop_result(1,2) [OF p(4) createRng_nonneg n0] p(5)
    by auto
qed

section \<open>Generation returns\<close>

lemma rng_value_upper:
  assumes "0 \<le> st"
  shows "rng_value st \<le> 2147483647 / 2147483648"
proof -
  have "rng_state st \<le> 2147483646" using rng_state_range [OF assms] by simp
  then have "(of_int (rng_state st - 1) :: rat) \<le> of_int 2147483645"
    by (simp only: of_int_le_iff)
  then have "(of_int (rng_state st - 1) :: rat) / 2147483646 \<le> 2147483645 / 2147483646"
    by (simp add: divide_right_mono)
  also have "\<dots> \<le> (2147483647 / 2147483648 :: rat)" by simp
  finally have "rd (of_int (rng_state st - 1) / 2147483646) \<le> rd (2147483647 / 2147483648)"
    by (rule rd_mono)
  then show ?thesis by (simp add: rng_value_def fdiv_def rd_one_minus)
qed

lemma rng_value_lower_small:
  assumes "0 \<le> st"
  shows "- (1 / 1073741824) \<le> rng_value st"
proof -
  have "0 \<le> rng_state st" using assms by (rule rng_state_nonneg')
  then have "(- 1 :: rat) \<le> of_int (rng_state st - 1)" by simp
  then have "(- 1 :: rat) / 2147483646 \<le> of_int (rng_state st - 1) / 2147483646"
    by (rule divide_right_mono) simp
  then have "rd (- 1 / 2147483646) \<le> rd (of_int (rng_state st - 1) / 2147483646)"
    by (rule rd_mono)
  moreover have "- (1 / 1073741824) \<le> rd (- 1 / 2147483646)" by (simp add: rd_simps)
  ultimately show ?thesis by (simp add: rng_value_def fdiv_def)
qed

text \<open>The day of a demand response event lies in the month.\<close>

lemma rd_21: "rd (45097156587 / 2147483648) = 45097156587 / 2147483648"
  by (simp add: rd_simps)

lemma event_day_range:
  assumes "0 \<le> st" "28 \<le> n" "n \<le> 31"
  shows "4 \<le> 5 + \<lfloor>fmul (rng_value st) (of_int (n - 10))\<rfloor>"
    and "5 + \<lfloor>fmul (rng_value st) (of_int (n - 10))\<rfloor> \<le> 25"
proof -
  define r where "r = rng_value st"
  define k :: rat where "k = of_int (n - 10)"
  have k: "18 \<le> k" "k \<le> 21" using assms(2,3) by (simp_all add: k_def)
  have r: "- (1 / 1073741824) \<le> r" "r \<le> 2147483647 / 2147483648"
    using rng_value_lower_small [OF assms(1)] rng_value_upper [OF assms(1)]
    by (simp_all add: r_def)
  have lo: "- 1 \<le> r * k"
  proof (cases "0 \<le> r")
    case True
    then have "0 \<le> r * k" using k by simp
    then show ?thesis by simp
  next
    case False
    then have "r * k = - ((- r) * k)" by simp
    moreover have "(- r) * k \<le> (1 / 1073741824) * 21"
      using r(1) k False by (intro mult_mono) simp_all
    ultimately show ?thesis by simp
  qed
  have hi: "r * k \<le> 21 * (2147483647 / 2147483648)"
  proof (cases "0 \<le> r")
    case True
    then have "r * k \<le> (2147483647 / 2147483648) * 21"
      using r(2) k by (intro mult_mono) simp_all
    then show ?thesis by (simp add: mult.commute)
  next
    case False
    then have "r * k \<le> 0" using k by (simp add: mult_le_0_iff)
    then show ?thesis by simp
  qed
  have "rd (- 1) \<le> rd (r * k)" using lo by (rule rd_mono)
  then have "- 1 \<le> \<lfloor>fmul r k\<rfloor>" by (simp add: rd_minus_one fmul_def le_floor_iff)
  then show "4 \<le> 5 + \<lfloor>fmul (rng_value st) (of_int (n - 10))\<rfloor>"
    by (simp add: r_def k_def)
  have "r * k \<le> 45097156587 / 2147483648" using hi by simp
  then have "rd (r * k) \<le> rd (45097156587 / 2147483648)" by (rule rd_mono)
  then have "fmul r k < 21" by (simp add: rd_21 fmul_def)
  then have "\<lfloor>fmul r k\<rfloor> < 21" by (simp add: floor_less_iff)
  then show "5 + \<lfloor>fmul (rng_value st) (of_int (n - 10))\<rfloor> \<le> 25"
    by (simp add: r_def k_def)
qed

text \<open>
  When the first of the month is a valid date and the month index is in range, every
  day of the month is valid, the year is one that a \<^verbatim>\<open>Date\<close> can hold, and the seed
  is far inside the range where the state of the generator is valid.
\<close>

lemma year_of_day_from_year:
  assumes "- 100001000 \<le> day_from_year y" "day_from_year y \<le> 100001000"
  shows "- 280000 \<le> y" and "y \<le> 280000"
proof -
  have a: "4 * ((y - 1969) div 4) \<le> y - 1969" "y - 1969 < 4 * ((y - 1969) div 4) + 4"
    by (rule int_div_bounds; simp)+
  have b: "100 * ((y - 1901) div 100) \<le> y - 1901" "y - 1901 < 100 * ((y - 1901) div 100) + 100"
    by (rule int_div_bounds; simp)+
  have c: "400 * ((y - 1601) div 400) \<le> y - 1601" "y - 1601 < 400 * ((y - 1601) div 400) + 400"
    by (rule int_div_bounds; simp)+
  have e: "day_from_year y
      = 365 * y - 719050 + (y - 1969) div 4 - (y - 1901) div 100 + (y - 1601) div 400"
    by (simp add: day_from_year_def)
  show "- 280000 \<le> y" using a b c assms unfolding e by linarith
  show "y \<le> 280000" using a b c assms unfolding e by linarith
qed

lemma new_Date_first_valid:
  assumes "new_Date year month 1 = Some t" "0 \<le> month" "month \<le> 11"
  shows "- 280000 \<le> make_full_year year" and "make_full_year year \<le> 280000"
    and "t = \<lparr>getFullYear = make_full_year year, getMonth = month, getDate = 1, timeInDay = 0\<rparr>"
proof -
  define y where "y = make_full_year year"
  have m: "month div 12 = 0" "month mod 12 = month" using assms(2,3) by simp_all
  have n: "norm_day y month 1 = (y, month, 1)"
    using days_in_month_bounds [of y month] by (intro norm_day_in_month) simp_all
  have c: "time_clip \<lparr>getFullYear = y, getMonth = month, getDate = 1, timeInDay = 0\<rparr> = Some t"
    using assms(1) by (simp add: new_Date_def make_day_def m n flip: y_def)
  then show "t = \<lparr>getFullYear = make_full_year year, getMonth = month, getDate = 1, timeInDay = 0\<rparr>"
    by (auto simp: time_clip_def y_def split: if_splits)
  have "\<bar>day_number y month 1 * 86400000\<bar> \<le> 8640000000000000"
    using c by (auto simp: time_clip_def getTime_def split: if_splits)
  then have d: "\<bar>day_number y month 1\<bar> \<le> 100000000" by linarith
  have o: "0 \<le> sum_list (map (\<lambda>k. days_in_month y (int k)) [0..<nat month])"
    "sum_list (map (\<lambda>k. days_in_month y (int k)) [0..<nat month]) \<le> 341"
    using month_offset_bounds [of y "nat month"] assms(2,3) by auto
  have "- 100001000 \<le> day_from_year y" "day_from_year y \<le> 100001000"
    using d o unfolding day_number_def by linarith+
  then show "- 280000 \<le> make_full_year year" "make_full_year year \<le> 280000"
    using year_of_day_from_year [of y] by (simp_all add: y_def)
qed

lemma seed_valid:
  assumes "- 280000 \<le> make_full_year year" "make_full_year year \<le> 280000"
    "0 \<le> month" "month \<le> 11"
  shows "valid_state (createRng (year * 97 + month * 31 + 2024))"
proof -
  have "- 280000 \<le> year" "year \<le> 280000"
    using assms(1,2) by (auto simp: make_full_year_def split: if_splits)
  then show ?thesis using assms(3,4) by (intro createRng_valid) linarith+
qed

lemma events_loop_length:
  "events_loop year month dn cnt i acc st = Inr evs
     \<Longrightarrow> length evs = length acc + nat (cnt - i)"
proof (induction year month dn cnt i acc st rule: events_loop.induct)
  case (1 year month dn cnt i acc st)
  show ?case
  proof (cases "i < cnt")
    case False
    then show ?thesis using 1(2) by (subst (asm) events_loop.simps) auto
  next
    case True
    then obtain r where d: "demand_event year month dn i st = Inr r"
      and l: "events_loop year month dn cnt (i + 1) (acc @ [fst r]) (snd r) = Inr evs"
      using 1(2) by (subst (asm) events_loop.simps) (auto split: sum.splits)
    have "length evs = length (acc @ [fst r]) + nat (cnt - (i + 1))"
      using 1(1) [OF True d l] .
    then show ?thesis using True by (simp add: nat_diff_distrib Suc_nat_eq_nat_zadd1)
  qed
qed

lemma demand_event_state_nonneg:
  assumes "demand_event year month dn i st = Inr r" "0 \<le> st"
  shows "0 \<le> snd r"
  using assms
  by (auto simp: demand_event_def Let_def rng_def rng_state_nonneg'
      split: option.splits if_splits)

lemma demand_event_total:
  assumes "0 \<le> st" "28 \<le> n" "n \<le> 31"
    and valid: "\<And>d. 1 \<le> d \<Longrightarrow> d \<le> 28 \<Longrightarrow> \<exists>t. new_Date year month d = Some t"
  shows "\<exists>r. demand_event year month (Some n) i st = Inr r"
proof -
  have "\<exists>t. new_Date year month (5 + \<lfloor>fmul (rng_value st) (of_int (n - 10))\<rfloor>) = Some t"
    using event_day_range [OF assms(1,2,3)] by (intro valid) simp_all
  then show ?thesis by (auto simp: demand_event_def Let_def rng_def)
qed

lemma events_loop_total:
  assumes "0 \<le> st" "28 \<le> n" "n \<le> 31"
    and valid: "\<And>d. 1 \<le> d \<Longrightarrow> d \<le> 28 \<Longrightarrow> \<exists>t. new_Date year month d = Some t"
  shows "\<exists>evs. events_loop year month (Some n) cnt i acc st = Inr evs"
  using assms(1) valid
proof (induction year month "Some n" cnt i acc st rule: events_loop.induct)
  case (1 year month cnt i acc st)
  show ?case
  proof (cases "i < cnt")
    case False
    then show ?thesis by (subst events_loop.simps) simp
  next
    case True
    obtain r where r: "demand_event year month (Some n) i st = Inr r"
      using demand_event_total [OF 1(2) assms(2,3) 1(3)] by blast
    have "0 \<le> snd r" using demand_event_state_nonneg [OF r 1(2)] .
    then obtain evs where
      "events_loop year month (Some n) cnt (i + 1) (acc @ [fst r]) (snd r) = Inr evs"
      using 1(1) [OF True r _ 1(3)] by blast
    then show ?thesis using True r by (subst events_loop.simps) simp
  qed
qed

lemma build_day_total:
  "new_Date year month day = Some t \<Longrightarrow> \<exists>r. build_day msin mcos year month n day st = Inr r"
  by (simp add: build_day_def Let_def)

lemma days_loop_total:
  assumes "0 \<le> i"
    and valid: "\<And>d. 1 \<le> d \<Longrightarrow> d \<le> n \<Longrightarrow> \<exists>t. new_Date year month d = Some t"
  shows "\<exists>ls'. days_loop msin mcos year month n i ls = Inr ls'"
  using assms
proof (induction msin mcos year month n i ls rule: days_loop.induct)
  case (1 msin mcos year month n i ls)
  show ?case
  proof (cases "i < n")
    case False
    then show ?thesis by (subst days_loop.simps) simp
  next
    case True
    obtain t where "new_Date year month (i + 1) = Some t"
      using 1(3) [of "i + 1"] 1(2) True by auto
    then obtain r where r: "build_day msin mcos year month n (i + 1) (rng_st ls) = Inr r"
      using build_day_total by blast
    obtain ls' where
      "days_loop msin mcos year month n (i + 1) (loop_step ls (fst r) (snd r)) = Inr ls'"
      using 1(1) [OF True r _ 1(3)] 1(2) by auto
    then show ?thesis using True r by (subst days_loop.simps) simp
  qed
qed

text \<open>
  Generation returns a snapshot for every year that a \<^verbatim>\<open>Date\<close> can hold throughout
  and every month index from 0 to 11.
\<close>

lemma buildMonth_miss_total:
  assumes "year_in_range year" "0 \<le> month" "month \<le> 11"
  shows "\<not> isl (buildMonth_miss msin mcos year month)"
proof -
  define n where "n = days_in_month (make_full_year year) month"
  have n: "28 \<le> n" "n \<le> 31" using days_in_month_bounds by (simp_all add: n_def)
  have dn: "daysInMonth_of year month = Some n"
    using daysInMonth_of_eq [OF assms] by (simp add: n_def)
  have valid: "\<exists>t. new_Date year month d = Some t" if "1 \<le> d" "d \<le> n" for d
    using new_Date_in_month [OF assms that(1)] that(2) by (simp add: n_def)
  obtain ls where ls: "days_loop msin mcos year month n 0
      (loop_init (createRng (year * 97 + month * 31 + 2024))) = Inr ls"
    using days_loop_total [of 0 n year month msin mcos] valid by auto
  have st: "0 \<le> rng_st ls"
    using days_loop_result(4) [OF ls createRng_nonneg] n by simp
  have "0 \<le> snd (rng (rng_st ls))" using st by (simp add: rng_def rng_state_nonneg')
  then obtain evs where "events_loop year month (Some n) (2 + \<lfloor>fmul (fst (rng (rng_st ls))) 2\<rfloor>)
      0 [] (snd (rng (rng_st ls))) = Inr evs"
    using events_loop_total [OF _ n, of "snd (rng (rng_st ls))" year month] valid n by force
  then have ev: "\<not> isl (createDemandEvents year month (rng_st ls))"
    by (simp add: createDemandEvents_def dn Let_def)
  obtain t where t: "new_Date year month 1 = Some t" using valid [of 1] n by auto
  show ?thesis
    using ev by (auto simp: buildMonth_miss_def dn ls t formatMonthLabel_def split: sum.splits)
qed

section \<open>One day of the month\<close>

lemma toFixed_ge:
  assumes "of_int K / 10 \<le> x" "0 \<le> K" "rd (of_int K / 10) = of_int K / 10"
  shows "of_int K / 10 \<le> parseFloat (toFixed 1 x)"
proof (cases "x = 0")
  case True
  then have "K = 0" using assms(1,2) by simp
  then show ?thesis using True by (simp add: parseFloat_def toFixed_def)
next
  case False
  have "(0::rat) \<le> of_int K / 10" using assms(2) by simp
  then have x: "0 < x" using assms(1) False by linarith
  have "of_int K \<le> x * 10" using assms(1) by simp
  then have "of_int K \<le> x * 10 + 1 / 2" by simp
  then have "K \<le> \<lfloor>x * 10 + 1 / 2\<rfloor>" by (simp add: le_floor_iff)
  then have "(of_int K :: rat) \<le> of_int \<lfloor>x * 10 + 1 / 2\<rfloor>" by (simp only: of_int_le_iff)
  then have "(of_int K :: rat) / 10 \<le> of_int \<lfloor>x * 10 + 1 / 2\<rfloor> / 10"
    by (rule divide_right_mono) simp
  then have "rd (of_int K / 10) \<le> rd (of_int \<lfloor>x * 10 + 1 / 2\<rfloor> / 10)" by (rule rd_mono)
  then show ?thesis using x by (simp add: assms(3) parseFloat_def toFixed_def)
qed

lemma rd_floors: "rd (5 / 2) = 5 / 2" "rd (7 / 2) = 7 / 2"
  by (simp_all add: rd_simps)

lemma toFixed_ge_0: "0 \<le> x \<Longrightarrow> 0 \<le> parseFloat (toFixed 1 x)"
  using toFixed_ge [of 0 x] by simp

lemma toFixed_ge_5_2: "5 / 2 \<le> x \<Longrightarrow> 5 / 2 \<le> parseFloat (toFixed 1 x)"
  using toFixed_ge [of 25 x] by (simp add: rd_floors)

lemma toFixed_ge_7_2: "7 / 2 \<le> x \<Longrightarrow> 7 / 2 \<le> parseFloat (toFixed 1 x)"
  using toFixed_ge [of 35 x] by (simp add: rd_floors)

lemma build_day_date:
  assumes "build_day msin mcos year month n day st = Inr (d, st')"
  shows "new_Date year month day = Some (date d)"
  using assms by (auto simp: build_day_def Let_def split: option.splits)

lemma build_day_tasks:
  assumes "build_day msin mcos year month n day st = Inr (d, st')"
  shows "tasks d = fst (deriveTasks day (after_draws (day_metrics msin mcos n day st)))"
  using assms by (auto simp: build_day_def Let_def split: option.splits)

lemma build_day_metrics:
  assumes "build_day msin mcos year month n day st = Inr (d, st')"
  shows "usageKwh d = parseFloat (toFixed 1 (usage (day_metrics msin mcos n day st)))"
    and "solarGenerationKwh d
           = parseFloat (toFixed 1 (max (solar (day_metrics msin mcos n day st)) (5 / 2)))"
    and "peakUsageKwh d = parseFloat (toFixed 1 (peakUsage (day_metrics msin mcos n day st)))"
    and "offPeakUsageKwh d
           = parseFloat (toFixed 1 (max (offPeak (day_metrics msin mcos n day st)) 0))"
    and "carbonKg d
           = parseFloat (toFixed 1 (max (carbon (day_metrics msin mcos n day st)) (7 / 2)))"
    and "costUsd d = parseFloat (toFixed 2 (cost (day_metrics msin mcos n day st)))"
    and "baselineKwh d = parseFloat (toFixed 1 (baseline (day_metrics msin mcos n day st)))"
  using assms by (auto simp: build_day_def Let_def split: option.splits)

lemma build_day_floors:
  assumes "build_day msin mcos year month n day st = Inr (d, st')"
  shows "0 \<le> offPeakUsageKwh d" and "5 / 2 \<le> solarGenerationKwh d" and "7 / 2 \<le> carbonKg d"
proof -
  show "0 \<le> offPeakUsageKwh d"
    unfolding build_day_metrics(4) [OF assms] by (rule toFixed_ge_0) simp
  show "5 / 2 \<le> solarGenerationKwh d"
    unfolding build_day_metrics(2) [OF assms] by (rule toFixed_ge_5_2) simp
  show "7 / 2 \<le> carbonKg d"
    unfolding build_day_metrics(5) [OF assms] by (rule toFixed_ge_7_2) simp
qed

section \<open>The tasks of a day\<close>

lemma show_int_digit: "0 \<le> i \<Longrightarrow> i < 10 \<Longrightarrow> show_int i = [digit_char (nat i)]"
  by (simp add: show_int_def digits_small)

lemma deriveTasks_2:
  "deriveTasks 2 st =
     ([\<lparr>task_id = ''2-preset-0'', title = ''Optimize thermostat schedule'', time = ''07:30'',
        description = ''Adjust weekday morning setpoints to reduce HVAC runtime.'',
        impact_type = Reduction, impact_value = lit (24 / 10), status = Planned\<rparr>], st)"
  by (simp add: deriveTasks_def presets_def preset_task_def show_int_digit digit_char_def)

lemma show_int_18: "show_int 18 = ''18''"
proof -
  have "digits 18 = digits 1 @ [digit_char 8]"
    by (subst digits.simps) simp
  then show ?thesis by (simp add: show_int_def digits_small digit_char_def)
qed

lemma deriveTasks_18:
  "deriveTasks 18 st =
     ([\<lparr>task_id = ''18-preset-0'', title = ''Load tuning workshop'', time = ''15:30'',
        description = ''Review automation scripts for HVAC and lighting.'',
        impact_type = Reduction, impact_value = lit (19 / 10), status = Planned\<rparr>,
       \<lparr>task_id = ''18-preset-1'', title = ''Battery discharge planning'', time = ''19:00'',
        description = ''Allocate battery discharge for peak window.'',
        impact_type = Shift, impact_value = lit (46 / 10), status = Planned\<rparr>], st)"
  by (simp add: deriveTasks_def presets_def preset_task_def show_int_18 show_int_digit
      digit_char_def)

lemma deriveTasks_preset_state:
  "day = 2 \<or> day = 5 \<or> day = 12 \<or> day = 18 \<or> day = 24 \<Longrightarrow> snd (deriveTasks day st) = st"
  by (auto simp: deriveTasks_def presets_def)

text \<open>
  Every id starts with the day and a minus sign, and the ids of one day differ.
\<close>

lemma deriveTasks_ids:
  assumes "t \<in> set (fst (deriveTasks day st))"
  shows "\<exists>r. task_id t = show_int day @ CHR ''-'' # r"
  using assms
  by (auto simp: deriveTasks_def presets_def preset_task_def split: if_splits)

lemma deriveTasks_distinct: "distinct (map task_id (fst (deriveTasks day st)))"
  by (auto simp: deriveTasks_def presets_def preset_task_def show_int_digit digit_char_def
      split: if_splits)

section \<open>The days of a generated snapshot\<close>

lemma snapshot_day:
  assumes "buildMonth_miss msin mcos year month = Inr s" "d \<in> set (days s)"
  obtains n k st st' where "daysInMonth_of year month = Some n" "k < nat n" "d = days s ! k"
    "0 \<le> st" "build_day msin mcos year month n (int k + 1) st = Inr (d, st')"
proof -
  obtain n where n: "daysInMonth_of year month = Some n" "length (days s) = nat n"
    "\<And>k. k < nat n \<Longrightarrow> built_day msin mcos year month n k (days s ! k)"
    using snapshot_days [OF assms(1)] by blast
  obtain k where k: "k < length (days s)" "d = days s ! k"
    using assms(2) by (auto simp: in_set_conv_nth)
  then have "built_day msin mcos year month n k d" using n(2,3) by simp
  then show ?thesis using that n(1,2) k unfolding built_day_def by auto
qed

lemma new_Date_getDate:
  assumes "new_Date year month d = Some t" "1 \<le> d" "d \<le> 28"
  shows "getDate t = d"
proof -
  define y where "y = make_full_year year + month div 12"
  have "norm_day y (month mod 12) d = (y, month mod 12, d)"
    using assms(2,3) days_in_month_bounds [of y "month mod 12"]
    by (intro norm_day_in_month) simp_all
  then show ?thesis
    using assms(1)
    by (auto simp: new_Date_def make_day_def time_clip_def split: if_splits simp flip: y_def)
qed

lemma distinct_concat_by_key:
  assumes "\<And>k. k < length xss \<Longrightarrow> distinct (xss ! k)"
    and "\<And>k x. k < length xss \<Longrightarrow> x \<in> set (xss ! k) \<Longrightarrow> f x = g k"
    and "inj g"
  shows "distinct (concat xss)"
  using assms(1,2)
proof (induction xss rule: rev_induct)
  case Nil
  then show ?case by simp
next
  case (snoc ys xss)
  have d: "distinct (concat xss)"
  proof (rule snoc.IH)
    show "distinct (xss ! k)" if "k < length xss" for k
      using snoc.prems(1) [of k] that by (simp add: nth_append)
    show "f x = g k" if "k < length xss" "x \<in> set (xss ! k)" for k x
      using snoc.prems(2) [of k x] that by (simp add: nth_append)
  qed
  have ys: "distinct ys" using snoc.prems(1) [of "length xss"] by simp
  have "x \<notin> set ys" if xc: "x \<in> set (concat xss)" for x
  proof
    assume y: "x \<in> set ys"
    obtain zs where zs: "zs \<in> set xss" "x \<in> set zs"
      using xc by auto
    obtain k where k: "k < length xss" "x \<in> set (xss ! k)"
      using zs by (auto simp: in_set_conv_nth)
    have "f x = g k" using snoc.prems(2) [of k x] k by (simp add: nth_append)
    moreover have "f x = g (length xss)" using snoc.prems(2) [of "length xss" x] y by simp
    ultimately show False using k(1) assms(3) by (auto dest: injD)
  qed
  then show ?case using d ys by auto
qed

lemma id_key:
  assumes "0 \<le> day" "task_id t = show_int day @ CHR ''-'' # r"
  shows "takeWhile (\<lambda>c. c \<noteq> CHR ''-'') (task_id t) = show_int day"
proof -
  have "\<forall>c \<in> set (show_int day). c \<noteq> CHR ''-''"
    using show_int_no_minus [OF assms(1)] by auto
  then show ?thesis by (simp add: assms(2) takeWhile_append2)
qed

text \<open>
  Claim C10. In a generated snapshot the ids of all tasks of all days are pairwise
  distinct: the list of all ids, day after day, has no repetition.
\<close>

theorem task_ids_distinct:
  assumes "buildMonth_miss msin mcos year month = Inr s"
  shows "distinct (concat (map (\<lambda>d. map task_id (tasks d)) (days s)))"
proof (rule distinct_concat_by_key [where f = "takeWhile (\<lambda>c. c \<noteq> CHR ''-'')"
      and g = "\<lambda>k. show_int (int k + 1)"])
  obtain n where n: "length (days s) = nat n"
    "\<And>k. k < nat n \<Longrightarrow> built_day msin mcos year month n k (days s ! k)"
    using snapshot_days [OF assms] by blast
  have day: "\<exists>st. tasks (days s ! k) = fst (deriveTasks (int k + 1) st)"
    if "k < length (days s)" for k
    using n(2) [of k] that n(1) build_day_tasks unfolding built_day_def by fastforce
  show "distinct (map (\<lambda>d. map task_id (tasks d)) (days s) ! k)"
    if "k < length (map (\<lambda>d. map task_id (tasks d)) (days s))" for k
    using day [of k] that deriveTasks_distinct by auto
  show "takeWhile (\<lambda>c. c \<noteq> CHR ''-'') x = show_int (int k + 1)"
    if kx: "k < length (map (\<lambda>d. map task_id (tasks d)) (days s))"
      "x \<in> set (map (\<lambda>d. map task_id (tasks d)) (days s) ! k)" for k x
  proof -
    have kl: "k < length (days s)" using kx(1) by simp
    then obtain st where st: "tasks (days s ! k) = fst (deriveTasks (int k + 1) st)"
      using day [of k] by auto
    have "x \<in> set (map task_id (tasks (days s ! k)))" using kx(2) kl by simp
    then obtain t where t: "t \<in> set (fst (deriveTasks (int k + 1) st))" "x = task_id t"
      using st by auto
    obtain r where "task_id t = show_int (int k + 1) @ CHR ''-'' # r"
      using deriveTasks_ids [OF t(1)] by blast
    then show ?thesis using id_key [of "int k + 1" t r] t(2) by simp
  qed
  show "inj (\<lambda>k. show_int (int k + 1))"
    by (rule injI) (auto dest: show_int_inj)
qed

text \<open>
  Claim C9. Every day of a generated snapshot has a stored off-peak usage of at least 0,
  a stored solar generation of at least 2.5 and a stored carbon figure of at least 3.5:
  the floor is applied before the rounding, and the rounding to one decimal and to a
  double is monotone and keeps 0, 2.5 and 3.5.
\<close>

theorem day_floors:
  assumes "buildMonth_miss msin mcos year month = Inr s" "d \<in> set (days s)"
  shows "0 \<le> offPeakUsageKwh d \<and> 5 / 2 \<le> solarGenerationKwh d \<and> 7 / 2 \<le> carbonKg d"
proof -
  obtain n k st st' where b: "build_day msin mcos year month n (int k + 1) st = Inr (d, st')"
    using snapshot_day [OF assms] by metis
  show ?thesis using build_day_floors [OF b] by simp
qed

text \<open>
  Claim C6. In every generated snapshot the eighteenth day carries exactly the two preset
  tasks "Load tuning workshop" and "Battery discharge planning", the second day exactly
  the preset task "Optimize thermostat schedule", with the ids \<open>{day}-preset-{index}\<close>
  and the status planned; and on the preset days 2, 5, 12, 18 and 24 deriving the tasks
  leaves the state of the generator as it was: no value is drawn.
\<close>

theorem preset_tasks:
  assumes "buildMonth_miss msin mcos year month = Inr s"
  shows "17 < length (days s)
    \<and> getDate (date (days s ! 17)) = 18
    \<and> map (\<lambda>t. (task_id t, title t, status t)) (tasks (days s ! 17))
        = [(''18-preset-0'', ''Load tuning workshop'', Planned),
           (''18-preset-1'', ''Battery discharge planning'', Planned)]
    \<and> getDate (date (days s ! 1)) = 2
    \<and> map (\<lambda>t. (task_id t, title t, status t)) (tasks (days s ! 1))
        = [(''2-preset-0'', ''Optimize thermostat schedule'', Planned)]
    \<and> snd (deriveTasks 2 st) = st \<and> snd (deriveTasks 5 st) = st
    \<and> snd (deriveTasks 12 st) = st \<and> snd (deriveTasks 18 st) = st
    \<and> snd (deriveTasks 24 st) = st"
proof -
  obtain n where n: "28 \<le> n" "length (days s) = nat n"
    "\<And>k. k < nat n \<Longrightarrow> built_day msin mcos year month n k (days s ! k)"
    using snapshot_days [OF assms] by blast
  have k: "17 < nat n" "1 < nat n" using n(1) by linarith+
  obtain st18 st18' where d18: "build_day msin mcos year month n 18 st18 = Inr (days s ! 17, st18')"
    using n(3) [OF k(1)] unfolding built_day_def by auto
  obtain st2 st2' where d2: "build_day msin mcos year month n 2 st2 = Inr (days s ! 1, st2')"
    using n(3) [OF k(2)] unfolding built_day_def by auto
  have "getDate (date (days s ! 17)) = 18"
    using new_Date_getDate [OF build_day_date [OF d18]] by simp
  moreover have "getDate (date (days s ! 1)) = 2"
    using new_Date_getDate [OF build_day_date [OF d2]] by simp
  moreover have "17 < length (days s)" using n(1,2) by simp
  moreover have "map (\<lambda>t. (task_id t, title t, status t)) (tasks (days s ! 17))
        = [(''18-preset-0'', ''Load tuning workshop'', Planned),
           (''18-preset-1'', ''Battery discharge planning'', Planned)]"
    unfolding build_day_tasks [OF d18] by (simp add: deriveTasks_18)
  moreover have "map (\<lambda>t. (task_id t, title t, status t)) (tasks (days s ! 1))
        = [(''2-preset-0'', ''Optimize thermostat schedule'', Planned)]"
    unfolding build_day_tasks [OF d2] by (simp add: deriveTasks_2)
  moreover have "snd (deriveTasks 2 st) = st" "snd (deriveTasks 5 st) = st"
    "snd (deriveTasks 12 st) = st" "snd (deriveTasks 18 st) = st" "snd (deriveTasks 24 st) = st"
    by (simp_all add: deriveTasks_preset_state)
  ultimately show ?thesis by blast
qed

section \<open>The example month\<close>

lemma year_in_range_2024: "year_in_range 2024"
  by (simp add: year_in_range_def make_full_year_def)

lemma february_2024_returns: "february_2024 = Inr (projr february_2024)"
  using buildMonth_miss_total [OF year_in_range_2024, of 1 sin_ref cos_ref]
  by (simp add: february_2024_def)

lemma february_2024_length: "length (days (projr february_2024)) = 29"
proof -
  have "daysInMonth_of 2024 1 = Some 29"
    using daysInMonth_of_eq [OF year_in_range_2024, of 1]
    by (simp add: make_full_year_def days_in_month_def is_leap_def)
  then show ?thesis
    using snapshot_days [OF february_2024_returns [unfolded february_2024_def]]
    by (auto simp: february_2024_def)
qed

theorem task_ids_distinct_witness:
  "february_2024 = Inr (projr february_2024)
   \<and> distinct (concat (map (\<lambda>d. map task_id (tasks d)) (days (projr february_2024))))"
  using task_ids_distinct [of sin_ref cos_ref 2024 1 "projr february_2024"]
    february_2024_returns
  by (simp add: february_2024_def)

theorem day_floors_witness:
  "february_2024 = Inr (projr february_2024)
   \<and> days (projr february_2024) ! 0 \<in> set (days (projr february_2024))
   \<and> 0 \<le> offPeakUsageKwh (days (projr february_2024) ! 0)
   \<and> 5 / 2 \<le> solarGenerationKwh (days (projr february_2024) ! 0)
   \<and> 7 / 2 \<le> carbonKg (days (projr february_2024) ! 0)"
proof -
  have m: "days (projr february_2024) ! 0 \<in> set (days (projr february_2024))"
    using february_2024_length by (intro nth_mem) simp
  show ?thesis
    using day_floors [of sin_ref cos_ref 2024 1 "projr february_2024"
        "days (projr february_2024) ! 0"] february_2024_returns m
    by (simp add: february_2024_def)
qed

theorem preset_tasks_witness:
  "february_2024 = Inr (projr february_2024)
   \<and> 17 < length (days (projr february_2024))
   \<and> getDate (date (days (projr february_2024) ! 17)) = 18
   \<and> map (\<lambda>t. (task_id t, title t, status t)) (tasks (days (projr february_2024) ! 17))
        = [(''18-preset-0'', ''Load tuning workshop'', Planned),
           (''18-preset-1'', ''Battery discharge planning'', Planned)]
   \<and> getDate (date (days (projr february_2024) ! 1)) = 2
   \<and> map (\<lambda>t. (task_id t, title t, status t)) (tasks (days (projr february_2024) ! 1))
        = [(''2-preset-0'', ''Optimize thermostat schedule'', Planned)]
   \<and> snd (deriveTasks 2 198856) = 198856 \<and> snd (deriveTasks 5 198856) = 198856
   \<and> snd (deriveTasks 12 198856) = 198856 \<and> snd (deriveTasks 18 198856) = 198856
   \<and> snd (deriveTasks 24 198856) = 198856"
  using preset_tasks [of sin_ref cos_ref 2024 1 "projr february_2024" 198856]
    february_2024_returns
  by (simp add: february_2024_def)

section \<open>The calendar\<close>

lemma calendar_days:
  assumes "year_in_range year" "make_full_year year = year" "0 \<le> month" "month \<le> 11"
  shows "\<not> isl (buildMonth_miss msin mcos year month)"
    and "length (days (projr (buildMonth_miss msin mcos year month)))
           = nat (days_in_month year month)"
    and "k < nat (days_in_month year month) \<Longrightarrow>
           date (days (projr (buildMonth_miss msin mcos year month)) ! k)
             = \<lparr>getFullYear = year, getMonth = month, getDate = int k + 1, timeInDay = 0\<rparr>"
    and "monthStart (projr (buildMonth_miss msin mcos year month))
           = \<lparr>getFullYear = year, getMonth = month, getDate = 1, timeInDay = 0\<rparr>"
proof -
  define s where "s = projr (buildMonth_miss msin mcos year month)"
  show t: "\<not> isl (buildMonth_miss msin mcos year month)"
    using assms(1,3,4) by (rule buildMonth_miss_total)
  then have r: "buildMonth_miss msin mcos year month = Inr s" by (simp add: s_def)
  have dn: "daysInMonth_of year month = Some (days_in_month year month)"
    using daysInMonth_of_eq [OF assms(1,3,4)] by (simp add: assms(2))
  obtain n where n: "daysInMonth_of year month = Some n" "length (days s) = nat n"
    "\<And>k. k < nat n \<Longrightarrow> built_day msin mcos year month n k (days s ! k)"
    using snapshot_days [OF r] by blast
  have neq: "n = days_in_month year month" using n(1) dn by simp
  show "length (days (projr (buildMonth_miss msin mcos year month)))
      = nat (days_in_month year month)"
    using n(2) neq by (simp add: s_def)
  show "date (days (projr (buildMonth_miss msin mcos year month)) ! k)
      = \<lparr>getFullYear = year, getMonth = month, getDate = int k + 1, timeInDay = 0\<rparr>"
    if k: "k < nat (days_in_month year month)"
  proof -
    obtain st st' where "build_day msin mcos year month n (int k + 1) st = Inr (days s ! k, st')"
      using n(3) [of k] k neq unfolding built_day_def by auto
    then have "new_Date year month (int k + 1) = Some (date (days s ! k))"
      by (rule build_day_date)
    moreover have "new_Date year month (int k + 1)
        = Some \<lparr>getFullYear = year, getMonth = month, getDate = int k + 1, timeInDay = 0\<rparr>"
      using new_Date_in_month [OF assms(1,3,4), of "int k + 1"] k by (simp add: assms(2))
    ultimately show ?thesis by (simp add: s_def)
  qed
  obtain n' ls where "new_Date year month 1 = Some (monthStart s)"
    using r by (rule snapshot_parts)
  moreover have "new_Date year month 1
      = Some \<lparr>getFullYear = year, getMonth = month, getDate = 1, timeInDay = 0\<rparr>"
    using new_Date_in_month [OF assms(1,3,4), of 1] days_in_month_bounds [of year month]
    by (simp add: assms(2))
  ultimately show "monthStart (projr (buildMonth_miss msin mcos year month))
      = \<lparr>getFullYear = year, getMonth = month, getDate = 1, timeInDay = 0\<rparr>"
    by (simp add: s_def)
qed

lemma february_2024_calendar:
  "\<not> isl (buildMonth_miss msin mcos 2024 1)
   \<and> length (days (projr (buildMonth_miss msin mcos 2024 1))) = 29
   \<and> monthStart (projr (buildMonth_miss msin mcos 2024 1))
       = \<lparr>getFullYear = 2024, getMonth = 1, getDate = 1, timeInDay = 0\<rparr>"
  using calendar_days(1,2,4) [of 2024 1 msin mcos] year_in_range_2024
  by (simp add: make_full_year_def days_in_month_def is_leap_def)

text \<open>
  Claim C5. \<^verbatim>\<open>buildMonth\<close> hands the year to \<^verbatim>\<open>new Date(year, \<dots>)\<close>, which reads a
  year from 0 to 99 as 1900 + year. For February of the year 0, a leap year with 29 days,
  the snapshot holds the 28 days of February 1900, and its \<^verbatim>\<open>monthStart\<close> is 1 February
  1900. (For every other year that a \<^verbatim>\<open>Date\<close> can hold throughout, the snapshot holds
  one record per day of the month, in ascending order: \<open>calendar_days\<close>; February 2024
  has 29: \<open>february_2024_calendar\<close>.)
\<close>

theorem february_of_year_zero:
  "\<not> isl (buildMonth_miss msin mcos 0 1)
   \<and> length (days (projr (buildMonth_miss msin mcos 0 1))) = 28
   \<and> date (days (projr (buildMonth_miss msin mcos 0 1)) ! 0)
       = \<lparr>getFullYear = 1900, getMonth = 1, getDate = 1, timeInDay = 0\<rparr>
   \<and> monthStart (projr (buildMonth_miss msin mcos 0 1))
       = \<lparr>getFullYear = 1900, getMonth = 1, getDate = 1, timeInDay = 0\<rparr>
   \<and> days_in_month 0 1 = 29"
proof -
  define s where "s = projr (buildMonth_miss msin mcos 0 1)"
  have y: "year_in_range 0" "make_full_year 0 = 1900"
    by (simp_all add: year_in_range_def make_full_year_def)
  have t: "\<not> isl (buildMonth_miss msin mcos 0 1)"
    by (rule buildMonth_miss_total [OF y(1)]) simp_all
  then have r: "buildMonth_miss msin mcos 0 1 = Inr s" by (simp add: s_def)
  have dn: "daysInMonth_of 0 1 = Some 28"
    using daysInMonth_of_eq [OF y(1), of 1] by (simp add: y(2) days_in_month_def is_leap_def)
  obtain n where n: "daysInMonth_of 0 1 = Some n" "length (days s) = nat n"
    "\<And>k. k < nat n \<Longrightarrow> built_day msin mcos 0 1 n k (days s ! k)"
    using snapshot_days [OF r] by blast
  have len: "length (days s) = 28" using n(1,2) dn by simp
  obtain st st' where "build_day msin mcos 0 1 n 1 st = Inr (days s ! 0, st')"
    using n(3) [of 0] n(1) dn unfolding built_day_def by auto
  then have "new_Date 0 1 1 = Some (date (days s ! 0))" by (rule build_day_date)
  moreover obtain n' ls where "new_Date 0 1 1 = Some (monthStart s)"
    using r by (rule snapshot_parts)
  moreover have "new_Date 0 1 1
      = Some \<lparr>getFullYear = 1900, getMonth = 1, getDate = 1, timeInDay = 0\<rparr>"
    using new_Date_in_month [OF y(1), of 1 1] by (simp add: y(2) days_in_month_def)
  moreover have "days_in_month 0 1 = 29" by (simp add: days_in_month_def is_leap_def)
  ultimately show ?thesis using t len by (simp add: s_def)
qed

section \<open>The demand response events\<close>

lemma rd_two_minus: "rd (2147483647 / 1073741824) = 2147483647 / 1073741824"
  by (simp add: rd_simps)

lemma eventCount_valid:
  assumes "valid_state st"
  shows "2 + \<lfloor>fmul (fst (rng st)) 2\<rfloor> = 2 \<or> 2 + \<lfloor>fmul (fst (rng st)) 2\<rfloor> = 3"
proof -
  have r: "0 \<le> rng_value st" "rng_value st \<le> 2147483647 / 2147483648"
    using rng_value_range [OF assms] by simp_all
  have "0 \<le> rng_value st * 2" using r(1) by simp
  then have lo: "0 \<le> fmul (rng_value st) 2" unfolding fmul_def by (rule rd_nonneg)
  have "rng_value st * 2 \<le> 2147483647 / 1073741824" using r(2) by simp
  then have "rd (rng_value st * 2) \<le> rd (2147483647 / 1073741824)" by (rule rd_mono)
  then have hi: "fmul (rng_value st) 2 < 2" by (simp add: rd_two_minus fmul_def)
  have "0 \<le> \<lfloor>fmul (rng_value st) 2\<rfloor>" using lo by simp
  moreover have "\<lfloor>fmul (rng_value st) 2\<rfloor> < 2" using hi by (simp add: floor_less_iff)
  ultimately show ?thesis by (simp add: rng_def) linarith
qed

lemma createDemandEvents_result:
  assumes "createDemandEvents year month st = Inr evs"
  shows "length evs = nat (2 + \<lfloor>fmul (fst (rng st)) 2\<rfloor>)"
    and "sorted (map (\<lambda>e. getTime (event_date e)) evs)"
proof -
  obtain raw where raw: "events_loop year month (daysInMonth_of year month)
      (2 + \<lfloor>fmul (fst (rng st)) 2\<rfloor>) 0 [] (snd (rng st)) = Inr raw"
    and evs: "evs = sort_key (\<lambda>e. getTime (event_date e)) raw"
    using assms by (auto simp: createDemandEvents_def Let_def split: sum.splits)
  show "length evs = nat (2 + \<lfloor>fmul (fst (rng st)) 2\<rfloor>)"
    using events_loop_length [OF raw] by (simp add: evs)
  show "sorted (map (\<lambda>e. getTime (event_date e)) evs)"
    by (simp add: evs)
qed

text \<open>
  Claim C7. A snapshot generated for a month index from 0 to 11 has two or three demand
  response events, as many as \<open>2 + floor(seq() * 2)\<close> for the value that the generator
  returns after the loop over the days, and they are in non-decreasing order of their
  dates.
\<close>

theorem demand_events_count_sorted:
  assumes "buildMonth_miss msin mcos year month = Inr s" "0 \<le> month" "month \<le> 11"
  shows "(length (demandEvents s) = 2 \<or> length (demandEvents s) = 3)
    \<and> sorted (map (\<lambda>e. getTime (event_date e)) (demandEvents s))
    \<and> (\<exists>n ls. daysInMonth_of year month = Some n
          \<and> days_loop msin mcos year month n 0
               (loop_init (createRng (year * 97 + month * 31 + 2024))) = Inr ls
          \<and> int (length (demandEvents s)) = 2 + \<lfloor>fmul (fst (rng (rng_st ls))) 2\<rfloor>)"
proof -
  obtain n ls where p: "daysInMonth_of year month = Some n" "28 \<le> n"
    "days_loop msin mcos year month n 0
       (loop_init (createRng (year * 97 + month * 31 + 2024))) = Inr ls"
    "new_Date year month 1 = Some (monthStart s)"
    "createDemandEvents year month (rng_st ls) = Inr (demandEvents s)"
    using assms(1) by (rule snapshot_parts)
  have "valid_state (createRng (year * 97 + month * 31 + 2024))"
    using new_Date_first_valid(1,2) [OF p(4) assms(2,3)] assms(2,3) by (rule seed_valid)
  then have v: "valid_state (rng_st ls)"
    using days_loop_result(5) [OF p(3) createRng_nonneg] p(2) by simp
  have c: "2 + \<lfloor>fmul (fst (rng (rng_st ls))) 2\<rfloor> = 2 \<or> 2 + \<lfloor>fmul (fst (rng (rng_st ls))) 2\<rfloor> = 3"
    using v by (rule eventCount_valid)
  have l: "length (demandEvents s) = nat (2 + \<lfloor>fmul (fst (rng (rng_st ls))) 2\<rfloor>)"
    using createDemandEvents_result(1) [OF p(5)] .
  have "length (demandEvents s) = 2 \<or> length (demandEvents s) = 3"
    using c l by auto
  moreover have "sorted (map (\<lambda>e. getTime (event_date e)) (demandEvents s))"
    using createDemandEvents_result(2) [OF p(5)] .
  moreover have "int (length (demandEvents s)) = 2 + \<lfloor>fmul (fst (rng (rng_st ls))) 2\<rfloor>"
    using c l by auto
  ultimately show ?thesis using p(1,3) by blast
qed

theorem demand_events_count_sorted_witness:
  "february_2024 = Inr (projr february_2024)
   \<and> (length (demandEvents (projr february_2024)) = 2
       \<or> length (demandEvents (projr february_2024)) = 3)
   \<and> sorted (map (\<lambda>e. getTime (event_date e)) (demandEvents (projr february_2024)))"
  using demand_events_count_sorted [of sin_ref cos_ref 2024 1 "projr february_2024"]
    february_2024_returns
  by (simp add: february_2024_def)

section \<open>The cache\<close>

lemma reachable_entries:
  assumes "reachable msin mcos cache" "cache k = Some s"
  shows "\<exists>year month. k = buildMonthKey year month
    \<and> buildMonth_miss msin mcos year month = Inr s"
  using assms
proof (induction arbitrary: k s rule: reachable.induct)
  case reachable_empty
  then show ?case by simp
next
  case (reachable_call cache year month)
  show ?case
  proof (cases "cache (buildMonthKey year month)")
    case (Some hit)
    then have "snd (buildMonth msin mcos cache year month) = cache"
      by (simp add: buildMonth_def)
    then show ?thesis using reachable_call by simp
  next
    case None
    show ?thesis
    proof (cases "buildMonth_miss msin mcos year month")
      case (Inl e)
      then have "snd (buildMonth msin mcos cache year month) = cache"
        by (simp add: buildMonth_def None)
      then show ?thesis using reachable_call by simp
    next
      case (Inr snapshot)
      then have c: "snd (buildMonth msin mcos cache year month)
          = cache(buildMonthKey year month \<mapsto> snapshot)"
        by (simp add: buildMonth_def None)
      show ?thesis
      proof (cases "k = buildMonthKey year month")
        case True
        then have "s = snapshot" using reachable_call.prems by (simp add: c)
        then show ?thesis using True Inr by blast
      next
        case False
        then have "cache k = Some s" using reachable_call.prems by (simp add: c)
        then show ?thesis by (rule reachable_call.IH)
      qed
    qed
  qed
qed

lemma buildMonth_reachable:
  assumes "reachable msin mcos cache"
  shows "fst (buildMonth msin mcos cache year month) = buildMonth_miss msin mcos year month"
proof (cases "cache (buildMonthKey year month)")
  case None
  then show ?thesis by (simp add: buildMonth_def split: sum.splits)
next
  case (Some hit)
  obtain year' month' where k: "buildMonthKey year month = buildMonthKey year' month'"
    and h: "buildMonth_miss msin mcos year' month' = Inr hit"
    using reachable_entries [OF assms Some] by blast
  have "year = year' \<and> month = month'" using k by (rule buildMonthKey_inj)
  then have "buildMonth_miss msin mcos year month = Inr hit" using h by simp
  then show ?thesis by (simp add: buildMonth_def Some)
qed

lemma buildMonth_repeat:
  "buildMonth msin mcos (snd (buildMonth msin mcos cache year month)) year month
     = buildMonth msin mcos cache year month"
  by (auto simp: buildMonth_def split: option.splits sum.splits)

lemma buildMonth_keeps:
  "cache k = Some s \<Longrightarrow> snd (buildMonth msin mcos cache year month) k = Some s"
  by (auto simp: buildMonth_def split: option.splits sum.splits)

lemma buildMonth_stores:
  assumes "fst (buildMonth msin mcos cache year month) = Inr s"
  shows "snd (buildMonth msin mcos cache year month) (buildMonthKey year month) = Some s"
  using assms by (auto simp: buildMonth_def split: option.splits sum.splits)

lemma buildMonth_hit:
  assumes "cache (buildMonthKey year month) = Some s"
  shows "buildMonth msin mcos cache year month = (Inr s, cache)"
  using assms by (simp add: buildMonth_def)

text \<open>
  Claim C1. Building a month is deterministic and idempotent. On every cache that calls of
  \<^verbatim>\<open>buildMonth\<close> have produced, the call for a year and a month returns what the
  synthesizer computes for them, which is also what the call returns on the empty cache;
  a repeated call returns the same result and leaves the cache as the first call left
  it; and no call removes or changes a snapshot that the cache holds. A call that returns
  a snapshot leaves it in the cache under the key of the year and the month; a call that
  finds a snapshot under that key returns this very snapshot and the cache as it was,
  whatever the synthesizer would compute; so the call after a successful call returns
  the stored snapshot and changes nothing.
\<close>

theorem buildMonth_deterministic_idempotent:
  assumes "reachable msin mcos cache"
  shows "fst (buildMonth msin mcos cache year month) = buildMonth_miss msin mcos year month
    \<and> fst (buildMonth msin mcos cache year month)
        = fst (buildMonth msin mcos Map.empty year month)
    \<and> buildMonth msin mcos (snd (buildMonth msin mcos cache year month)) year month
        = buildMonth msin mcos cache year month
    \<and> reachable msin mcos (snd (buildMonth msin mcos cache year month))
    \<and> cache \<subseteq>\<^sub>m snd (buildMonth msin mcos cache year month)
    \<and> (\<forall>s. fst (buildMonth msin mcos cache year month) = Inr s
          \<longrightarrow> snd (buildMonth msin mcos cache year month) (buildMonthKey year month) = Some s
            \<and> buildMonth msin mcos (snd (buildMonth msin mcos cache year month)) year month
                = (Inr s, snd (buildMonth msin mcos cache year month)))
    \<and> (\<forall>s f g. cache (buildMonthKey year month) = Some s
          \<longrightarrow> buildMonth f g cache year month = (Inr s, cache))"
proof -
  have a: "fst (buildMonth msin mcos cache year month) = buildMonth_miss msin mcos year month"
    using assms by (rule buildMonth_reachable)
  have b: "fst (buildMonth msin mcos Map.empty year month) = buildMonth_miss msin mcos year month"
    using reachable_empty by (rule buildMonth_reachable)
  have c: "reachable msin mcos (snd (buildMonth msin mcos cache year month))"
    using assms by (rule reachable_call)
  have d: "cache \<subseteq>\<^sub>m snd (buildMonth msin mcos cache year month)"
    unfolding map_le_def using buildMonth_keeps by fastforce
  have e: "snd (buildMonth msin mcos cache year month) (buildMonthKey year month) = Some s
      \<and> buildMonth msin mcos (snd (buildMonth msin mcos cache year month)) year month
          = (Inr s, snd (buildMonth msin mcos cache year month))"
    if r: "fst (buildMonth msin mcos cache year month) = Inr s" for s
  proof -
    have st: "snd (buildMonth msin mcos cache year month) (buildMonthKey year month) = Some s"
      using r by (rule buildMonth_stores)
    then have "buildMonth msin mcos (snd (buildMonth msin mcos cache year month)) year month
          = (Inr s, snd (buildMonth msin mcos cache year month))"
      by (rule buildMonth_hit)
    then show ?thesis using st by simp
  qed
  have f: "buildMonth f g cache year month = (Inr s, cache)"
    if h: "cache (buildMonthKey year month) = Some s" for s f g
    using h by (rule buildMonth_hit)
  have r: "buildMonth msin mcos (snd (buildMonth msin mcos cache year month)) year month
        = buildMonth msin mcos cache year month"
    by (rule buildMonth_repeat)
  show ?thesis using a b c d e f r by (simp only: simp_thms) blast
qed

theorem buildMonth_deterministic_idempotent_witness:
  "reachable sin_ref cos_ref (snd (buildMonth sin_ref cos_ref Map.empty 2024 0))
   \<and> fst (buildMonth sin_ref cos_ref (snd (buildMonth sin_ref cos_ref Map.empty 2024 0)) 2024 1)
       = february_2024
   \<and> february_2024 = Inr (projr february_2024)
   \<and> snd (buildMonth sin_ref cos_ref (snd (buildMonth sin_ref cos_ref Map.empty 2024 0)) 2024 1)
        (buildMonthKey 2024 1) = Some (projr february_2024)
   \<and> buildMonth sin_ref cos_ref
        (snd (buildMonth sin_ref cos_ref
               (snd (buildMonth sin_ref cos_ref Map.empty 2024 0)) 2024 1)) 2024 1
       = (Inr (projr february_2024),
          snd (buildMonth sin_ref cos_ref
                (snd (buildMonth sin_ref cos_ref Map.empty 2024 0)) 2024 1))"
proof -
  have r: "reachable sin_ref cos_ref (snd (buildMonth sin_ref cos_ref Map.empty 2024 0))"
    using reachable_empty by (rule reachable_call)
  have f: "february_2024 = Inr (projr february_2024)" by (rule february_2024_returns)
  note t = buildMonth_deterministic_idempotent [OF r, of 2024 1]
  have a: "fst (buildMonth sin_ref cos_ref
      (snd (buildMonth sin_ref cos_ref Map.empty 2024 0)) 2024 1) = february_2024"
    using t by (simp add: february_2024_def)
  then have "fst (buildMonth sin_ref cos_ref
      (snd (buildMonth sin_ref cos_ref Map.empty 2024 0)) 2024 1) = Inr (projr february_2024)"
    using f by simp
  then show ?thesis using t r a f by blast
qed
section \<open>Bounds on the metrics of a day\<close>

lemma rd_abs_le:
  assumes "\<bar>x\<bar> \<le> b" "rd b = b"
  shows "\<bar>rd x\<bar> \<le> b"
proof -
  have "rd (- b) \<le> rd x" "rd x \<le> rd b"
    using assms(1) by (auto intro!: rd_mono)
  then show ?thesis by (simp add: rd_minus assms(2) abs_le_iff)
qed

lemma fadd_abs:
  assumes "\<bar>x\<bar> \<le> a" "\<bar>y\<bar> \<le> b" "rd (a + b) = a + b"
  shows "\<bar>fadd x y\<bar> \<le> a + b"
  unfolding fadd_def using assms by (intro rd_abs_le) linarith+

lemma fsub_abs:
  assumes "\<bar>x\<bar> \<le> a" "\<bar>y\<bar> \<le> b" "rd (a + b) = a + b"
  shows "\<bar>fsub x y\<bar> \<le> a + b"
  unfolding fsub_def using assms by (intro rd_abs_le) linarith+

lemma fmul_abs:
  assumes "\<bar>x\<bar> \<le> a" "\<bar>y\<bar> \<le> b" "rd (a * b) = a * b"
  shows "\<bar>fmul x y\<bar> \<le> a * b"
proof -
  have "\<bar>x * y\<bar> \<le> a * b"
    unfolding abs_mult using assms(1,2) by (intro mult_mono) simp_all
  then show ?thesis unfolding fmul_def using assms(3) by (rule rd_abs_le)
qed

lemma rng_value_abs: "0 \<le> st \<Longrightarrow> \<bar>rng_value st\<bar> \<le> 1"
  using rng_value_lower_small [of st] rng_value_upper [of st] by (simp add: abs_le_iff)

lemma toFixed_error: "\<bar>toFixed k x - x\<bar> \<le> 1 / (2 * 10 ^ k)"
proof -
  define p :: rat where "p = 10 ^ k"
  have p: "0 < p" by (simp add: p_def)
  have pos: "\<bar>of_int \<lfloor>a * p + 1 / 2\<rfloor> / p - a\<bar> \<le> 1 / (2 * p)" for a :: rat
  proof -
    have "of_int \<lfloor>a * p + 1 / 2\<rfloor> \<le> a * p + 1 / 2" "a * p + 1 / 2 < of_int \<lfloor>a * p + 1 / 2\<rfloor> + 1"
      by linarith+
    then have "\<bar>of_int \<lfloor>a * p + 1 / 2\<rfloor> - a * p\<bar> \<le> 1 / 2" by linarith
    then have "\<bar>of_int \<lfloor>a * p + 1 / 2\<rfloor> - a * p\<bar> / p \<le> (1 / 2) / p"
      using p by (intro divide_right_mono) simp_all
    moreover have "\<bar>of_int \<lfloor>a * p + 1 / 2\<rfloor> - a * p\<bar> / p = \<bar>of_int \<lfloor>a * p + 1 / 2\<rfloor> / p - a\<bar>"
    proof -
      have "(of_int \<lfloor>a * p + 1 / 2\<rfloor> - a * p) / p = of_int \<lfloor>a * p + 1 / 2\<rfloor> / p - a"
        using p by (simp add: diff_divide_distrib)
      then show ?thesis using p by (metis abs_divide abs_of_pos)
    qed
    ultimately show ?thesis by simp
  qed
  consider "0 < x" | "x = 0" | "x < 0" by linarith
  then show ?thesis
  proof cases
    case 1
    then show ?thesis using pos [of x] by (simp add: toFixed_def p_def)
  next
    case 2
    then show ?thesis by (simp add: toFixed_def)
  next
    case 3
    have "\<bar>of_int \<lfloor>(- x) * p + 1 / 2\<rfloor> / p - (- x)\<bar> \<le> 1 / (2 * p)" by (rule pos)
    moreover have "toFixed k x - x = - (of_int \<lfloor>(- x) * p + 1 / 2\<rfloor> / p - (- x))"
      using 3 by (simp add: toFixed_def p_def)
    ultimately show ?thesis by (simp add: p_def)
  qed
qed

lemma toFixed_int: "\<exists>n. toFixed k x = of_int n / 10 ^ k"
proof -
  have "toFixed k x
      = of_int ((if x < 0 then - 1 else 1) * \<lfloor>\<bar>x\<bar> * 10 ^ k + 1 / 2\<rfloor>) / 10 ^ k"
    by (simp add: toFixed_def sgn_if)
  then show ?thesis by blast
qed

text \<open>The rounding to decimals of a value of magnitude at most 127.\<close>

lemma rd_128: "rd 128 = 128"
  by (simp add: rd_simps)

lemma stored_bounds:
  assumes "\<bar>x\<bar> \<le> 127"
  shows "\<bar>parseFloat (toFixed k x)\<bar> \<le> 128"
    and "\<bar>parseFloat (toFixed k x) - x\<bar> \<le> 1 / (2 * 10 ^ k) + 1 / 2 ^ 47"
    and "\<exists>n. \<bar>parseFloat (toFixed k x) - of_int n / 10 ^ k\<bar> \<le> 1 / 2 ^ 47
          \<and> \<bar>of_int n / 10 ^ k :: rat\<bar> \<le> 128"
proof -
  have "(1::rat) / (2 * 10 ^ k) \<le> 1 / 2"
    by (intro divide_left_mono) (simp_all add: self_le_power)
  then have "\<bar>toFixed k x\<bar> \<le> 127 + 1 / 2"
    using toFixed_error [of k x] assms by linarith
  then have t: "\<bar>toFixed k x\<bar> \<le> 128" and t': "\<bar>toFixed k x\<bar> < 2 powi 7"
    by simp_all
  show "\<bar>parseFloat (toFixed k x)\<bar> \<le> 128"
    unfolding parseFloat_def using t rd_128 by (rule rd_abs_le)
  have e: "\<bar>rd (toFixed k x) - toFixed k x\<bar> \<le> 1 / 2 ^ 47"
    using rd_error_bound [OF t'] by (simp add: power_int_minus_divide)
  show "\<bar>parseFloat (toFixed k x) - x\<bar> \<le> 1 / (2 * 10 ^ k) + 1 / 2 ^ 47"
    using e toFixed_error [of k x] unfolding parseFloat_def by linarith
  obtain n where n: "toFixed k x = of_int n / 10 ^ k" using toFixed_int by blast
  show "\<exists>n. \<bar>parseFloat (toFixed k x) - of_int n / 10 ^ k\<bar> \<le> 1 / 2 ^ 47
      \<and> \<bar>of_int n / 10 ^ k :: rat\<bar> \<le> 128"
    using e t unfolding parseFloat_def n by blast
qed

lemma lit_bounds:
  "\<bar>lit (9 / 10)\<bar> \<le> 1" "\<bar>lit (2 / 10)\<bar> \<le> 1 / 4" "\<bar>lit (15 / 10)\<bar> \<le> 3 / 2"
  "\<bar>lit (18 / 10)\<bar> \<le> 2" "\<bar>lit (42 / 100)\<bar> \<le> 1 / 2" "\<bar>lit (8 / 100)\<bar> \<le> 1 / 8"
  "\<bar>lit (18 / 100)\<bar> \<le> 1 / 4" "\<bar>lit (7 / 100)\<bar> \<le> 1 / 8" "\<bar>lit (55 / 100)\<bar> \<le> 1"
  "\<bar>lit (45 / 100)\<bar> \<le> 1 / 2"
  by (simp_all add: rd_simps)

text \<open>
  With a sine of magnitude at most one, the usage of a day stays below 47 in magnitude and
  the peak usage below 30; with such a cosine too, the solar generation stays below 17
  and the carbon figure below 32.
\<close>

lemma day_metrics_usage_bounds:
  assumes st: "0 \<le> st" and msin: "\<And>x. \<bar>msin x\<bar> \<le> 1"
  shows "\<bar>usage (day_metrics msin mcos n day st)\<bar> \<le> 187 / 4"
    and "\<bar>peakUsage (day_metrics msin mcos n day st)\<bar> \<le> 935 / 32"
    and "\<bar>cost (day_metrics msin mcos n day st)\<bar> \<le> 3927 / 256"
    and "\<bar>baseline (day_metrics msin mcos n day st)\<bar> \<le> 33"
    and "offPeak (day_metrics msin mcos n day st)
           = fsub (usage (day_metrics msin mcos n day st))
               (peakUsage (day_metrics msin mcos n day st))"
proof -
  define a where "a = fmul (fdiv (of_int day) (of_int n)) Math_PI"
  define v1 where "v1 = rng_value st"
  define v2 where "v2 = rng_value (rng_state st)"
  define v4 where "v4 = rng_value (rng_state (rng_state (rng_state st)))"
  have v: "\<bar>v1\<bar> \<le> 1" "\<bar>v2\<bar> \<le> 1" "\<bar>v4\<bar> \<le> 1"
    unfolding v1_def v2_def v4_def using st
    by (intro rng_value_abs rng_state_nonneg'; simp)+
  define b where "b = fadd 28 (fmul (msin a) 5)"
  define sm where "sm = fadd (lit (9 / 10)) (fmul v1 (lit (2 / 10)))"
  define u where "u = fsub (fadd (fmul b sm) (fmul v2 4)) (lit (15 / 10))"
  define ps where "ps = fadd (lit (42 / 100)) (fmul v4 (lit (8 / 100)))"
  define p where "p = fmul u ps"
  have m: "usage (day_metrics msin mcos n day st) = u"
    "peakUsage (day_metrics msin mcos n day st) = p"
    "cost (day_metrics msin mcos n day st)
       = fadd (fmul u (lit (18 / 100))) (fmul p (lit (7 / 100)))"
    "baseline (day_metrics msin mcos n day st) = b"
    "offPeak (day_metrics msin mcos n day st) = fsub u p"
    by (simp_all add: day_metrics_def Let_def rng_def a_def v1_def v2_def v4_def b_def
        sm_def u_def ps_def p_def)
  have b1: "\<bar>fmul (msin a) 5\<bar> \<le> 1 * 5"
    by (rule fmul_abs [OF msin]) (simp_all add: rd_simps)
  have b: "\<bar>b\<bar> \<le> 28 + 1 * 5"
    unfolding b_def by (rule fadd_abs [OF _ b1]) (simp_all add: rd_simps)
  have s1: "\<bar>fmul v1 (lit (2 / 10))\<bar> \<le> 1 * (1 / 4)"
    by (rule fmul_abs [OF v(1) lit_bounds(2)]) (simp add: rd_simps)
  have sm: "\<bar>sm\<bar> \<le> 1 + 1 * (1 / 4)"
    unfolding sm_def by (rule fadd_abs [OF lit_bounds(1) s1]) (simp add: rd_simps)
  have u1: "\<bar>fmul b sm\<bar> \<le> (28 + 1 * 5) * (1 + 1 * (1 / 4))"
    by (rule fmul_abs [OF b sm]) (simp add: rd_simps)
  have u2: "\<bar>fmul v2 4\<bar> \<le> 1 * 4"
    by (rule fmul_abs [OF v(2)]) (simp_all add: rd_simps)
  have u3: "\<bar>fadd (fmul b sm) (fmul v2 4)\<bar> \<le> (28 + 1 * 5) * (1 + 1 * (1 / 4)) + 1 * 4"
    by (rule fadd_abs [OF u1 u2]) (simp add: rd_simps)
  have u: "\<bar>u\<bar> \<le> (28 + 1 * 5) * (1 + 1 * (1 / 4)) + 1 * 4 + 3 / 2"
    unfolding u_def by (rule fsub_abs [OF u3 lit_bounds(3)]) (simp add: rd_simps)
  show "\<bar>usage (day_metrics msin mcos n day st)\<bar> \<le> 187 / 4"
    using u by (simp add: m)
  have p1: "\<bar>fmul v4 (lit (8 / 100))\<bar> \<le> 1 * (1 / 8)"
    by (rule fmul_abs [OF v(3) lit_bounds(6)]) (simp add: rd_simps)
  have ps: "\<bar>ps\<bar> \<le> 1 / 2 + 1 * (1 / 8)"
    unfolding ps_def by (rule fadd_abs [OF lit_bounds(5) p1]) (simp add: rd_simps)
  have u': "\<bar>u\<bar> \<le> 187 / 4" using u by simp
  have ps': "\<bar>ps\<bar> \<le> 5 / 8" using ps by simp
  have p: "\<bar>p\<bar> \<le> 187 / 4 * (5 / 8)"
    unfolding p_def by (rule fmul_abs [OF u' ps']) (simp add: rd_simps)
  show "\<bar>peakUsage (day_metrics msin mcos n day st)\<bar> \<le> 935 / 32"
    using p by (simp add: m)
  have p': "\<bar>p\<bar> \<le> 935 / 32" using p by simp
  have k1: "\<bar>fmul u (lit (18 / 100))\<bar> \<le> 187 / 4 * (1 / 4)"
    by (rule fmul_abs [OF u' lit_bounds(7)]) (simp add: rd_simps)
  have k2: "\<bar>fmul p (lit (7 / 100))\<bar> \<le> 935 / 32 * (1 / 8)"
    by (rule fmul_abs [OF p' lit_bounds(8)]) (simp add: rd_simps)
  have k: "\<bar>fadd (fmul u (lit (18 / 100))) (fmul p (lit (7 / 100)))\<bar>
      \<le> 187 / 4 * (1 / 4) + 935 / 32 * (1 / 8)"
    by (rule fadd_abs [OF k1 k2]) (simp add: rd_simps)
  show "\<bar>cost (day_metrics msin mcos n day st)\<bar> \<le> 3927 / 256"
    using k by (simp add: m)
  show "\<bar>baseline (day_metrics msin mcos n day st)\<bar> \<le> 33"
    using b by (simp add: m)
  show "offPeak (day_metrics msin mcos n day st)
      = fsub (usage (day_metrics msin mcos n day st))
          (peakUsage (day_metrics msin mcos n day st))"
    by (simp add: m)
qed

lemma day_metrics_solar_bounds:
  assumes st: "0 \<le> st" and msin: "\<And>x. \<bar>msin x\<bar> \<le> 1" and mcos: "\<And>x. \<bar>mcos x\<bar> \<le> 1"
  shows "\<bar>solar (day_metrics msin mcos n day st)\<bar> \<le> 17"
    and "\<bar>carbon (day_metrics msin mcos n day st)\<bar> \<le> 255 / 8"
proof -
  define a where "a = fmul (fdiv (of_int day) (of_int n)) Math_PI"
  define v3 where "v3 = rng_value (rng_state (rng_state st))"
  have v: "\<bar>v3\<bar> \<le> 1"
    unfolding v3_def using st by (intro rng_value_abs rng_state_nonneg'; simp)
  define u where "u = usage (day_metrics msin mcos n day st)"
  define so where "so = fadd (fadd 11 (fmul (mcos a) 4)) (fmul v3 (lit (18 / 10)))"
  have m: "solar (day_metrics msin mcos n day st) = so"
    "carbon (day_metrics msin mcos n day st)
       = fmul (fsub u (fmul so (lit (55 / 100)))) (lit (45 / 100))"
    by (simp_all add: day_metrics_def Let_def rng_def a_def v3_def u_def so_def)
  have u': "\<bar>u\<bar> \<le> 187 / 4"
    unfolding u_def using st msin by (rule day_metrics_usage_bounds(1))
  have o1: "\<bar>fmul (mcos a) 4\<bar> \<le> 1 * 4"
    by (rule fmul_abs [OF mcos]) (simp_all add: rd_simps)
  have o2: "\<bar>fadd 11 (fmul (mcos a) 4)\<bar> \<le> 11 + 1 * 4"
    by (rule fadd_abs [OF _ o1]) (simp_all add: rd_simps)
  have o3: "\<bar>fmul v3 (lit (18 / 10))\<bar> \<le> 1 * 2"
    by (rule fmul_abs [OF v lit_bounds(4)]) (simp add: rd_simps)
  have so: "\<bar>so\<bar> \<le> 11 + 1 * 4 + 1 * 2"
    unfolding so_def by (rule fadd_abs [OF o2 o3]) (simp add: rd_simps)
  show "\<bar>solar (day_metrics msin mcos n day st)\<bar> \<le> 17"
    using so by (simp add: m)
  have so': "\<bar>so\<bar> \<le> 17" using so by simp
  have c1: "\<bar>fmul so (lit (55 / 100))\<bar> \<le> 17 * 1"
    by (rule fmul_abs [OF so' lit_bounds(9)]) (simp add: rd_simps)
  have c2: "\<bar>fsub u (fmul so (lit (55 / 100)))\<bar> \<le> 187 / 4 + 17 * 1"
    by (rule fsub_abs [OF u' c1]) (simp add: rd_simps)
  have c: "\<bar>fmul (fsub u (fmul so (lit (55 / 100)))) (lit (45 / 100))\<bar>
      \<le> (187 / 4 + 17 * 1) * (1 / 2)"
    by (rule fmul_abs [OF c2 lit_bounds(10)]) (simp add: rd_simps)
  show "\<bar>carbon (day_metrics msin mcos n day st)\<bar> \<le> 255 / 8"
    using c by (simp add: m)
qed

section \<open>Sums of rounded values\<close>

lemma toFixed_near:
  assumes "\<bar>x * 10 ^ k - of_int N\<bar> < 1 / 2"
  shows "toFixed k x = of_int N / 10 ^ k"
proof -
  define y where "y = x * 10 ^ k"
  have y: "of_int N - 1 / 2 < y" "y < of_int N + 1 / 2"
    using assms unfolding y_def by linarith+
  consider "0 < x" | "x = 0" | "x < 0" by linarith
  then show ?thesis
  proof cases
    case 1
    have "\<lfloor>y + 1 / 2\<rfloor> = N" using y by (intro floor_unique) linarith+
    then show ?thesis using 1 by (simp add: toFixed_def y_def)
  next
    case 2
    then have "\<bar>(of_int N :: rat)\<bar> < 1" using assms by simp
    then have "N = 0" by (metis abs_zero of_int_0 of_int_abs of_int_less_1_iff zabs_less_one_iff)
    then show ?thesis using 2 by (simp add: toFixed_def)
  next
    case 3
    have "\<lfloor>- y + 1 / 2\<rfloor> = - N" using y by (intro floor_unique) (simp; linarith)+
    moreover have "\<bar>x\<bar> * 10 ^ k = - y" using 3 by (simp add: y_def)
    ultimately show ?thesis using 3 by (simp add: toFixed_def)
  qed
qed

lemma foldl_fadd_error:
  assumes "\<forall>x \<in> set xs. \<bar>x\<bar> \<le> 128" "\<bar>a\<bar> \<le> 129 * of_nat m" "m + length xs \<le> 31"
  shows "\<bar>foldl fadd a xs - (a + sum_list xs)\<bar> \<le> of_nat (length xs) / 2 ^ 42
    \<and> \<bar>foldl fadd a xs\<bar> \<le> 129 * of_nat (m + length xs)"
  using assms
proof (induction xs arbitrary: a m)
  case Nil
  then show ?case by simp
next
  case (Cons x xs)
  have x: "\<bar>x\<bar> \<le> 128" using Cons.prems(1) by simp
  have m: "(of_nat m :: rat) \<le> 30" using Cons.prems(3) by simp
  have s: "\<bar>a + x\<bar> \<le> 129 * of_nat m + 128" using x Cons.prems(2) by linarith
  then have "\<bar>a + x\<bar> < 2 powi 12" using m by simp
  then have e: "\<bar>fadd a x - (a + x)\<bar> \<le> 1 / 2 ^ 42"
    using rd_error_bound [of "a + x" 12] by (simp add: fadd_def power_int_minus_divide)
  have "(1::rat) / 2 ^ 42 \<le> 1" by simp
  moreover have "129 * of_nat (Suc m) = 129 * of_nat m + (129::rat)" by simp
  ultimately have b: "\<bar>fadd a x\<bar> \<le> 129 * of_nat (Suc m)"
    using e s by linarith
  have ih: "\<bar>foldl fadd (fadd a x) xs - (fadd a x + sum_list xs)\<bar> \<le> of_nat (length xs) / 2 ^ 42
      \<and> \<bar>foldl fadd (fadd a x) xs\<bar> \<le> 129 * of_nat (Suc m + length xs)"
    using Cons.prems(1,3) by (intro Cons.IH [OF _ b]) simp_all
  have "\<bar>foldl fadd (fadd a x) xs - (a + (x + sum_list xs))\<bar>
      \<le> of_nat (length xs) / 2 ^ 42 + 1 / 2 ^ 42"
    using ih e by linarith
  then show ?case using ih by (simp add: add_divide_distrib)
qed

lemma sum_near_decimal:
  fixes D :: rat
  assumes "\<forall>x \<in> set xs. \<exists>n. \<bar>x - of_int n / D\<bar> \<le> e"
  shows "\<exists>N. \<bar>sum_list xs - of_int N / D\<bar> \<le> of_nat (length xs) * e"
  using assms
proof (induction xs)
  case Nil
  have "\<bar>sum_list [] - of_int 0 / D\<bar> \<le> of_nat (length ([] :: rat list)) * e" by simp
  then show ?case by blast
next
  case (Cons x xs)
  obtain n where n: "\<bar>x - of_int n / D\<bar> \<le> e" using Cons.prems by auto
  obtain N where N: "\<bar>sum_list xs - of_int N / D\<bar> \<le> of_nat (length xs) * e"
    using Cons by auto
  have "of_int (n + N) / D = of_int n / D + of_int N / D" by (simp add: add_divide_distrib)
  moreover have "of_nat (length (x # xs)) * e = e + of_nat (length xs) * e"
    by (simp add: algebra_simps)
  moreover have "sum_list (x # xs) = x + sum_list xs" by simp
  ultimately have "\<bar>sum_list (x # xs) - of_int (n + N) / D\<bar> \<le> of_nat (length (x # xs)) * e"
    using n N by linarith
  then show ?case by blast
qed

lemma total_tolerance:
  assumes el: "\<forall>x \<in> set xs. \<bar>x\<bar> \<le> 128 \<and> (\<exists>n. \<bar>x - of_int n / 10 ^ k\<bar> \<le> 1 / 2 ^ 47)"
    and len: "length xs \<le> 31" and k: "k \<le> 2"
  shows "\<bar>parseFloat (toFixed k (foldl fadd 0 xs)) - sum_list xs\<bar> \<le> 1 / 20"
proof -
  define T where "T = foldl fadd 0 xs"
  define D :: rat where "D = 10 ^ k"
  have D: "1 \<le> D" "D \<le> 100"
  proof -
    show "1 \<le> D" by (simp add: D_def)
    have "(10::rat) ^ k \<le> 10 ^ 2" using k by (intro power_increasing) simp_all
    then show "D \<le> 100" by (simp add: D_def)
  qed
  have l: "(of_nat (length xs) :: rat) \<le> 31" using len by simp
  have f: "\<bar>T - sum_list xs\<bar> \<le> of_nat (length xs) / 2 ^ 42" "\<bar>T\<bar> \<le> 129 * of_nat (length xs)"
    using foldl_fadd_error [of xs 0 0] el len by (simp_all add: T_def)
  obtain N where N: "\<bar>sum_list xs - of_int N / D\<bar> \<le> of_nat (length xs) * (1 / 2 ^ 47)"
    using sum_near_decimal [of xs D "1 / 2 ^ 47"] el by (auto simp: D_def)
  have "(of_nat (length xs) :: rat) / 2 ^ 42 \<le> 31 / 2 ^ 42"
    using l by (intro divide_right_mono) simp_all
  then have f1: "\<bar>T - sum_list xs\<bar> \<le> 31 / 2 ^ 42"
    using f(1) by linarith
  have N1: "\<bar>sum_list xs - of_int N / D\<bar> \<le> 31 / 2 ^ 47"
  proof -
    have "of_nat (length xs) * (1 / 2 ^ 47) \<le> (31 :: rat) * (1 / 2 ^ 47)"
      using l by (intro mult_right_mono) simp_all
    then show ?thesis using N by simp
  qed
  have "(31::rat) / 2 ^ 42 + 31 / 2 ^ 47 \<le> 1 / 2 ^ 36" by simp
  then have TN: "\<bar>T - of_int N / D\<bar> \<le> 1 / 2 ^ 36" using f1 N1 by linarith
  have "\<bar>T * D - of_int N\<bar> = \<bar>T - of_int N / D\<bar> * D"
  proof -
    have "T * D - of_int N = (T - of_int N / D) * D" using D by (simp add: left_diff_distrib)
    then show ?thesis using D by (simp add: abs_mult)
  qed
  also have "\<dots> \<le> 1 / 2 ^ 36 * 100"
    using TN D by (intro mult_mono) simp_all
  finally have "\<bar>T * 10 ^ k - of_int N\<bar> < 1 / 2" by (simp add: D_def)
  then have tf: "toFixed k T = of_int N / D" unfolding D_def by (rule toFixed_near)
  have "\<bar>T\<bar> \<le> 129 * 31" using f(2) l by linarith
  moreover have "(1::rat) / 2 ^ 36 \<le> 1" by simp
  ultimately have "\<bar>of_int N / D\<bar> \<le> 4000" using TN by linarith
  then have "\<bar>of_int N / D\<bar> < 2 powi 12" by simp
  then have "\<bar>rd (of_int N / D) - of_int N / D\<bar> \<le> 1 / 2 ^ 42"
    using rd_error_bound [of "of_int N / D" 12] by (simp add: power_int_minus_divide)
  then have "\<bar>parseFloat (toFixed k T) - sum_list xs\<bar> \<le> 1 / 2 ^ 42 + 31 / 2 ^ 47"
    using N1 unfolding parseFloat_def tf by linarith
  moreover have "(1::rat) / 2 ^ 42 + 31 / 2 ^ 47 \<le> 1 / 20" by simp
  ultimately show ?thesis unfolding T_def by linarith
qed

section \<open>Totals and the off-peak share\<close>

lemma clamp1_abs: "\<bar>clamp1 x\<bar> \<le> 1"
  unfolding clamp1_def by (cases "x \<le> 1"; cases "- 1 \<le> x") (simp_all add: max_def min_def)

lemma sin_ref_abs: "\<bar>sin_ref x\<bar> \<le> 1"
  unfolding sin_ref_def by (rule clamp1_abs)

lemma cos_ref_abs: "\<bar>cos_ref x\<bar> \<le> 1"
  unfolding cos_ref_def by (rule clamp1_abs)

lemma stored_summand:
  assumes "\<bar>x\<bar> \<le> 127"
  shows "\<bar>parseFloat (toFixed k x)\<bar> \<le> 128
    \<and> (\<exists>n. \<bar>parseFloat (toFixed k x) - of_int n / 10 ^ k\<bar> \<le> 1 / 2 ^ 47)"
  using stored_bounds(1,3) [OF assms, of k] by blast

lemma built_day_stored:
  assumes b: "built_day msin mcos year month n k d"
    and msin: "\<And>x. \<bar>msin x\<bar> \<le> 1" and mcos: "\<And>x. \<bar>mcos x\<bar> \<le> 1"
  shows "\<bar>usageKwh d\<bar> \<le> 128 \<and> (\<exists>n. \<bar>usageKwh d - of_int n / 10 ^ 1\<bar> \<le> 1 / 2 ^ 47)"
    and "\<bar>solarGenerationKwh d\<bar> \<le> 128
         \<and> (\<exists>n. \<bar>solarGenerationKwh d - of_int n / 10 ^ 1\<bar> \<le> 1 / 2 ^ 47)"
    and "\<bar>carbonKg d\<bar> \<le> 128 \<and> (\<exists>n. \<bar>carbonKg d - of_int n / 10 ^ 1\<bar> \<le> 1 / 2 ^ 47)"
    and "\<bar>costUsd d\<bar> \<le> 128 \<and> (\<exists>n. \<bar>costUsd d - of_int n / 10 ^ 2\<bar> \<le> 1 / 2 ^ 47)"
    and "\<bar>baselineKwh d\<bar> \<le> 128 \<and> (\<exists>n. \<bar>baselineKwh d - of_int n / 10 ^ 1\<bar> \<le> 1 / 2 ^ 47)"
proof -
  obtain st st' where st: "0 \<le> st"
    and bd: "build_day msin mcos year month n (int k + 1) st = Inr (d, st')"
    using b unfolding built_day_def by blast
  note u = day_metrics_usage_bounds [where msin = msin and mcos = mcos and n = n
      and day = "int k + 1", OF st msin]
  note so = day_metrics_solar_bounds [where msin = msin and mcos = mcos and n = n
      and day = "int k + 1", OF st msin mcos]
  show "\<bar>usageKwh d\<bar> \<le> 128 \<and> (\<exists>n. \<bar>usageKwh d - of_int n / 10 ^ 1\<bar> \<le> 1 / 2 ^ 47)"
    unfolding build_day_metrics(1) [OF bd] using u(1) by (intro stored_summand) linarith
  show "\<bar>costUsd d\<bar> \<le> 128 \<and> (\<exists>n. \<bar>costUsd d - of_int n / 10 ^ 2\<bar> \<le> 1 / 2 ^ 47)"
    unfolding build_day_metrics(6) [OF bd] using u(3) by (intro stored_summand) linarith
  show "\<bar>baselineKwh d\<bar> \<le> 128 \<and> (\<exists>n. \<bar>baselineKwh d - of_int n / 10 ^ 1\<bar> \<le> 1 / 2 ^ 47)"
    unfolding build_day_metrics(7) [OF bd] using u(4) by (intro stored_summand) linarith
  have "\<bar>max (solar (day_metrics msin mcos n (int k + 1) st)) (5 / 2)\<bar> \<le> 127"
    using so(1) unfolding max_def by (simp split: if_splits) linarith
  then show "\<bar>solarGenerationKwh d\<bar> \<le> 128
         \<and> (\<exists>n. \<bar>solarGenerationKwh d - of_int n / 10 ^ 1\<bar> \<le> 1 / 2 ^ 47)"
    unfolding build_day_metrics(2) [OF bd] by (rule stored_summand)
  have "\<bar>max (carbon (day_metrics msin mcos n (int k + 1) st)) (7 / 2)\<bar> \<le> 127"
    using so(2) unfolding max_def by (simp split: if_splits) linarith
  then show "\<bar>carbonKg d\<bar> \<le> 128 \<and> (\<exists>n. \<bar>carbonKg d - of_int n / 10 ^ 1\<bar> \<le> 1 / 2 ^ 47)"
    unfolding build_day_metrics(5) [OF bd] by (rule stored_summand)
qed

lemma snapshot_sums:
  assumes gen: "buildMonth_miss msin mcos year month = Inr s"
  obtains ls where "sums_ok ls" "days s = days_acc ls" "length (days s) \<le> 31"
    "total_usageKwh (totals s) = parseFloat (toFixed 1 (totalUsage ls))"
    "total_solarGenerationKwh (totals s) = parseFloat (toFixed 1 (totalSolar ls))"
    "total_carbonKg (totals s) = parseFloat (toFixed 1 (totalCarbon ls))"
    "total_baselineKwh (totals s) = parseFloat (toFixed 1 (totalBaseline ls))"
    "total_costUsd (totals s) = parseFloat (toFixed 2 (totalCost ls))"
    "total_targetKwh (totals s)
       = parseFloat (toFixed 1 (fmul (totalBaseline ls) (lit (95 / 100))))"
proof -
  from snapshot_parts [OF gen] obtain n ls where p:
    "daysInMonth_of year month = Some n" "28 \<le> n" "n \<le> 31"
    "days_loop msin mcos year month n 0
       (loop_init (createRng (year * 97 + month * 31 + 2024))) = Inr ls"
    "days s = days_acc ls"
    "total_usageKwh (totals s) = parseFloat (toFixed 1 (totalUsage ls))"
    "total_solarGenerationKwh (totals s) = parseFloat (toFixed 1 (totalSolar ls))"
    "total_carbonKg (totals s) = parseFloat (toFixed 1 (totalCarbon ls))"
    "total_baselineKwh (totals s) = parseFloat (toFixed 1 (totalBaseline ls))"
    "total_costUsd (totals s) = parseFloat (toFixed 2 (totalCost ls))"
    "total_targetKwh (totals s)
       = parseFloat (toFixed 1 (fmul (totalBaseline ls) (lit (95 / 100))))"
    by metis
  have n0: "0 \<le> n" using p(2) by simp
  note r = days_loop_result [OF p(4) createRng_nonneg n0]
  have "length (days s) \<le> 31" using r(1) p(3,5) by simp
  then show ?thesis using that r(3) p by blast
qed

text \<open>
  Claim C8. In every generated snapshot, on a host whose sine and cosine have magnitude
  at most one, each of the totals for usage, solar generation, carbon, cost and baseline
  differs by at most 0.05 from the sum of the field over the days as stored (rounded);
  and the target is the running baseline sum, before its own rounding, times 0.95,
  rounded to one decimal.
\<close>

theorem totals_tolerance:
  assumes gen: "buildMonth_miss msin mcos year month = Inr s"
    and msin: "\<And>x. \<bar>msin x\<bar> \<le> 1" and mcos: "\<And>x. \<bar>mcos x\<bar> \<le> 1"
  shows "\<bar>total_usageKwh (totals s) - sum_list (map usageKwh (days s))\<bar> \<le> 1 / 20
    \<and> \<bar>total_solarGenerationKwh (totals s) - sum_list (map solarGenerationKwh (days s))\<bar>
        \<le> 1 / 20
    \<and> \<bar>total_carbonKg (totals s) - sum_list (map carbonKg (days s))\<bar> \<le> 1 / 20
    \<and> \<bar>total_costUsd (totals s) - sum_list (map costUsd (days s))\<bar> \<le> 1 / 20
    \<and> \<bar>total_baselineKwh (totals s) - sum_list (map baselineKwh (days s))\<bar> \<le> 1 / 20
    \<and> total_targetKwh (totals s)
        = parseFloat (toFixed 1
            (fmul (foldl fadd 0 (map baselineKwh (days s))) (lit (95 / 100))))"
proof -
  from snapshot_sums [OF gen] obtain ls where p: "sums_ok ls" "days s = days_acc ls"
    "length (days s) \<le> 31"
    "total_usageKwh (totals s) = parseFloat (toFixed 1 (totalUsage ls))"
    "total_solarGenerationKwh (totals s) = parseFloat (toFixed 1 (totalSolar ls))"
    "total_carbonKg (totals s) = parseFloat (toFixed 1 (totalCarbon ls))"
    "total_baselineKwh (totals s) = parseFloat (toFixed 1 (totalBaseline ls))"
    "total_costUsd (totals s) = parseFloat (toFixed 2 (totalCost ls))"
    "total_targetKwh (totals s)
       = parseFloat (toFixed 1 (fmul (totalBaseline ls) (lit (95 / 100))))"
    by metis
  have sums: "totalUsage ls = foldl fadd 0 (map usageKwh (days s))"
    "totalSolar ls = foldl fadd 0 (map solarGenerationKwh (days s))"
    "totalCarbon ls = foldl fadd 0 (map carbonKg (days s))"
    "totalCost ls = foldl fadd 0 (map costUsd (days s))"
    "totalBaseline ls = foldl fadd 0 (map baselineKwh (days s))"
    using p(1) by (simp_all add: sums_ok_def p(2))
  have built: "\<exists>n k. built_day msin mcos year month n k d" if mem: "d \<in> set (days s)" for d
  proof -
    obtain k where k: "k < length (days s)" "d = days s ! k"
      using mem by (auto simp: in_set_conv_nth)
    moreover obtain n where "length (days s) = nat n"
      "\<forall>k < nat n. built_day msin mcos year month n k (days s ! k)"
      using snapshot_days [OF gen] by blast
    ultimately show ?thesis by auto
  qed
  have len: "length (map f (days s)) \<le> 31" for f :: "EnergyDay \<Rightarrow> num"
    using p(3) by simp
  have "\<forall>x \<in> set (map usageKwh (days s)).
      \<bar>x\<bar> \<le> 128 \<and> (\<exists>n. \<bar>x - of_int n / 10 ^ 1\<bar> \<le> 1 / 2 ^ 47)"
    using built built_day_stored(1) [OF _ msin mcos] by fastforce
  then have 1: "\<bar>total_usageKwh (totals s) - sum_list (map usageKwh (days s))\<bar> \<le> 1 / 20"
    unfolding p(4) sums by (rule total_tolerance [OF _ len]) simp
  have "\<forall>x \<in> set (map solarGenerationKwh (days s)).
      \<bar>x\<bar> \<le> 128 \<and> (\<exists>n. \<bar>x - of_int n / 10 ^ 1\<bar> \<le> 1 / 2 ^ 47)"
    using built built_day_stored(2) [OF _ msin mcos] by fastforce
  then have 2: "\<bar>total_solarGenerationKwh (totals s)
      - sum_list (map solarGenerationKwh (days s))\<bar> \<le> 1 / 20"
    unfolding p(5) sums by (rule total_tolerance [OF _ len]) simp
  have "\<forall>x \<in> set (map carbonKg (days s)).
      \<bar>x\<bar> \<le> 128 \<and> (\<exists>n. \<bar>x - of_int n / 10 ^ 1\<bar> \<le> 1 / 2 ^ 47)"
    using built built_day_stored(3) [OF _ msin mcos] by fastforce
  then have 3: "\<bar>total_carbonKg (totals s) - sum_list (map carbonKg (days s))\<bar> \<le> 1 / 20"
    unfolding p(6) sums by (rule total_tolerance [OF _ len]) simp
  have "\<forall>x \<in> set (map costUsd (days s)).
      \<bar>x\<bar> \<le> 128 \<and> (\<exists>n. \<bar>x - of_int n / 10 ^ 2\<bar> \<le> 1 / 2 ^ 47)"
    using built built_day_stored(4) [OF _ msin mcos] by fastforce
  then have 4: "\<bar>total_costUsd (totals s) - sum_list (map costUsd (days s))\<bar> \<le> 1 / 20"
    unfolding p(8) sums by (rule total_tolerance [OF _ len]) simp
  have "\<forall>x \<in> set (map baselineKwh (days s)).
      \<bar>x\<bar> \<le> 128 \<and> (\<exists>n. \<bar>x - of_int n / 10 ^ 1\<bar> \<le> 1 / 2 ^ 47)"
    using built built_day_stored(5) [OF _ msin mcos] by fastforce
  then have 5: "\<bar>total_baselineKwh (totals s) - sum_list (map baselineKwh (days s))\<bar> \<le> 1 / 20"
    unfolding p(7) sums by (rule total_tolerance [OF _ len]) simp
  have 6: "total_targetKwh (totals s)
        = parseFloat (toFixed 1
            (fmul (foldl fadd 0 (map baselineKwh (days s))) (lit (95 / 100))))"
    unfolding p(9) sums ..
  show ?thesis using 1 2 3 4 5 6 by blast
qed

theorem totals_tolerance_witness:
  "february_2024 = Inr (projr february_2024)
   \<and> \<bar>total_usageKwh (totals (projr february_2024))
       - sum_list (map usageKwh (days (projr february_2024)))\<bar> \<le> 1 / 20
   \<and> \<bar>total_costUsd (totals (projr february_2024))
       - sum_list (map costUsd (days (projr february_2024)))\<bar> \<le> 1 / 20
   \<and> total_targetKwh (totals (projr february_2024))
        = parseFloat (toFixed 1
            (fmul (foldl fadd 0 (map baselineKwh (days (projr february_2024))))
               (lit (95 / 100))))"
  using totals_tolerance [of sin_ref cos_ref 2024 1 "projr february_2024"]
    february_2024_returns sin_ref_abs cos_ref_abs
  by (simp add: february_2024_def)




section \<open>The first day of January 2025\<close>















end
